theory Spec2Isabelle
  imports Main "HOL-Library.Word" "HOL-Library.Multiset" "HOL-Library.Code_Target_Nat"
begin

unbundle bit_operations_syntax

section \<open>Data model\<close>

text \<open>
  The codec of \<^verbatim>\<open>steganography.py\<close> (class \<^verbatim>\<open>AdvancedSteganography\<close>) works on a numpy
  array of shape \<open>(height, width, 3)\<close> and dtype \<open>uint8\<close>, obtained from the carrier file by
  \<^verbatim>\<open>Image.open\<close> and written back losslessly as PNG. The model starts at that array:
  an image is its shape together with its rows of pixels, and \<^verbatim>\<open>img_array[y, x]\<close> is
  row \<open>y\<close>, column \<open>x\<close>.

  A Python \<^verbatim>\<open>str\<close> is represented by its UTF-8 encoding, so \<^verbatim>\<open>s.encode()\<close> is the
  representation itself, \<^verbatim>\<open>len(s.encode())\<close> is the length of the list, and a string is
  falsy exactly when the list is empty. Python integers are \<open>nat\<close> or \<open>int\<close>.
\<close>

type_synonym byte = "8 word"
type_synonym pixel = "byte \<times> byte \<times> byte"
type_synonym pystr = "byte list"

record image =
  width :: nat
  height :: nat
  rows :: "pixel list list"

definition wf_image :: "image \<Rightarrow> bool" where
  "wf_image img =
     (length (rows img) = height img \<and> list_all (\<lambda>r. length r = width img) (rows img))"

text \<open>
  Exceptions of the source as values: the \<^verbatim>\<open>ValueError\<close> of the capacity check with the
  two bit counts of its message, \<^verbatim>\<open>struct.error\<close>, and \<^verbatim>\<open>IndexError\<close> of an array access.
\<close>

datatype error = CapacityError nat nat | StructError | IndexError

text \<open>
  The standard-library functions the codec calls are parameters of the model:
  \<^verbatim>\<open>hashlib.sha256(b).digest()\<close>, \<^verbatim>\<open>random.seed\<close> (which replaces the state of the
  module-level generator by a function of the seed), \<^verbatim>\<open>random.shuffle\<close> (which reads and
  advances that state), the validity test behind \<^verbatim>\<open>bytes.decode('utf-8')\<close>, and
  \<^verbatim>\<open>base64.b64encode\<close>. The type \<open>'g\<close> is the state of the module-level generator.
\<close>

record 'g pylib =
  sha256 :: "byte list \<Rightarrow> byte list"
  random_seed :: "nat \<Rightarrow> 'g"
  random_shuffle :: "'g \<Rightarrow> nat list \<Rightarrow> nat list \<times> 'g"
  utf8_valid :: "byte list \<Rightarrow> bool"
  b64encode :: "byte list \<Rightarrow> byte list"

text \<open>The documented contract of \<^verbatim>\<open>random.shuffle\<close>: the list is permuted in place.\<close>

definition shuffle_permutes :: "'g pylib \<Rightarrow> bool" where
  "shuffle_permutes lib = (\<forall>g xs. mset (fst (random_shuffle lib g xs)) = mset xs)"

text \<open>Truthiness of an optional string: \<^verbatim>\<open>None\<close> and \<^verbatim>\<open>""\<close> are falsy.\<close>

fun truthy :: "pystr option \<Rightarrow> bool" where
  "truthy None = False"
| "truthy (Some s) = (s \<noteq> [])"

section \<open>Bit helpers\<close>

text \<open>\<^verbatim>\<open>self.marker = b'SSSTEGO'\<close>\<close>

definition marker :: "byte list" where
  "marker = map of_char ''SSSTEGO''"

text \<open>
  \<^verbatim>\<open>_embed_bit\<close>: the value is clamped to \<open>0..255\<close> as a Python integer, the bit is masked
  to \<open>0\<close> or \<open>1\<close>, and the result \<^verbatim>\<open>(value & 0xFE) | bit\<close> is stored back into the
  \<open>uint8\<close> array.
\<close>

definition embed_bit :: "byte \<Rightarrow> nat \<Rightarrow> byte" where
  "embed_bit v b =
     (let v' = max 0 (min 255 (uint v));
          b' = int b AND 1
      in word_of_int ((v' AND 0xFE) OR b'))"

text \<open>\<^verbatim>\<open>_extract_bit\<close>: \<^verbatim>\<open>value & 1\<close>\<close>

definition extract_bit :: "byte \<Rightarrow> nat" where
  "extract_bit v = unat (v AND 1)"

text \<open>\<^verbatim>\<open>struct.pack("<I", n)\<close> raises \<^verbatim>\<open>struct.error\<close> outside \<open>0..2^32-1\<close>.\<close>

definition struct_pack_le32 :: "nat \<Rightarrow> error + byte list" where
  "struct_pack_le32 n =
     (if n < 2 ^ 32 then Inr (map (\<lambda>k. of_nat (n div 256 ^ k)) [0..<4])
      else Inl StructError)"

text \<open>\<^verbatim>\<open>struct.unpack("<I", b)[0]\<close> raises \<^verbatim>\<open>struct.error\<close> unless \<open>b\<close> has 4 bytes.\<close>

definition struct_unpack_le32 :: "byte list \<Rightarrow> error + nat" where
  "struct_unpack_le32 bs =
     (if length bs = 4 then Inr (foldr (\<lambda>b acc. unat b + 256 * acc) bs 0)
      else Inl StructError)"

text \<open>\<^verbatim>\<open>int.from_bytes(b, 'big')\<close>\<close>

definition from_bytes_big :: "byte list \<Rightarrow> nat" where
  "from_bytes_big bs = foldl (\<lambda>acc b. 256 * acc + unat b) 0 bs"

text \<open>
  The bit list of \<^verbatim>\<open>encode\<close>:
  \<^verbatim>\<open>for b in message_bytes: for i in range(8): bits.append((b >> i) & 1)\<close>
\<close>

definition bytes_to_bits :: "byte list \<Rightarrow> nat list" where
  "bytes_to_bits bs = concat (map (\<lambda>b. map (\<lambda>i. unat (drop_bit i b AND 1)) [0..<8]) bs)"

text \<open>
  The inverse conversion of \<^verbatim>\<open>_decode_image\<close>, used for the header and for the
  whole frame:
  \<^verbatim>\<open>for i in range(0, nbits, 8):
      if i + 8 <= len(extracted_bits):
          byte = 0
          for j in range(8):
              if extracted_bits[i + j]: byte |= (1 << j)
          out.append(byte)\<close>
\<close>

definition bits_to_byte :: "nat list \<Rightarrow> nat \<Rightarrow> byte" where
  "bits_to_byte extracted_bits i =
     foldl (\<lambda>byte j. if extracted_bits ! (i + j) \<noteq> 0 then byte OR push_bit j 1 else byte)
       0 [0..<8]"

definition bits_to_bytes :: "nat list \<Rightarrow> nat \<Rightarrow> byte list" where
  "bits_to_bytes extracted_bits nbits =
     map (bits_to_byte extracted_bits)
       (filter (\<lambda>i. i + 8 \<le> length extracted_bits)
          (map (\<lambda>k. 8 * k) [0..<(nbits + 7) div 8]))"

section \<open>Pixel order\<close>

text \<open>
  The block that \<^verbatim>\<open>encode\<close> and \<^verbatim>\<open>_decode_image\<close> both start with. With a truthy
  password the module-level generator is re-seeded from the password and the linear
  indices are shuffled; otherwise the coordinates are
  \<^verbatim>\<open>[(x, y) for y in range(height) for x in range(width)]\<close> and the generator is
  not touched.
\<close>

definition password_seed :: "'g pylib \<Rightarrow> pystr \<Rightarrow> nat" where
  "password_seed lib password = from_bytes_big (take 4 (sha256 lib password))"

definition raster_coords :: "nat \<Rightarrow> nat \<Rightarrow> (nat \<times> nat) list" where
  "raster_coords w h = concat (map (\<lambda>y. map (\<lambda>x. (x, y)) [0..<w]) [0..<h])"

definition shuffled_coords :: "'g pylib \<Rightarrow> nat \<Rightarrow> nat \<Rightarrow> nat \<Rightarrow> (nat \<times> nat) list \<times> 'g" where
  "shuffled_coords lib seed w h =
     (let g1 = random_seed lib seed;
          (pixels, g2) = random_shuffle lib g1 [0..<w * h]
      in (map (\<lambda>i. (i mod w, i div w)) pixels, g2))"

definition pixel_coords ::
  "'g pylib \<Rightarrow> 'g \<Rightarrow> nat \<Rightarrow> nat \<Rightarrow> pystr option \<Rightarrow> (nat \<times> nat) list \<times> 'g" where
  "pixel_coords lib g w h password =
     (case password of
        None \<Rightarrow> (raster_coords w h, g)
      | Some p \<Rightarrow>
          if p \<noteq> [] then shuffled_coords lib (password_seed lib p) w h
          else (raster_coords w h, g))"

section \<open>Array access\<close>

text \<open>\<^verbatim>\<open>img_array[y, x]\<close> raises \<^verbatim>\<open>IndexError\<close> outside the array.\<close>

definition get_pixel :: "image \<Rightarrow> nat \<Rightarrow> nat \<Rightarrow> error + pixel" where
  "get_pixel arr x y =
     (if y < length (rows arr) \<and> x < length (rows arr ! y) then Inr (rows arr ! y ! x)
      else Inl IndexError)"

definition set_pixel :: "image \<Rightarrow> nat \<Rightarrow> nat \<Rightarrow> pixel \<Rightarrow> image" where
  "set_pixel arr x y p = arr\<lparr>rows := (rows arr)[y := (rows arr ! y)[x := p]]\<rparr>"

section \<open>Encode\<close>

text \<open>
  The embedding loop of \<^verbatim>\<open>encode\<close> over \<^verbatim>\<open>pixel_coords\<close>, with the running
  \<^verbatim>\<open>bit_index\<close>. The loop breaks when all bits are written; within a pixel each of the
  three channels takes the next bit if one is left, and the pixel is stored back.
\<close>

fun embed_pixels :: "nat list \<Rightarrow> (nat \<times> nat) list \<Rightarrow> nat \<Rightarrow> image \<Rightarrow> error + image" where
  "embed_pixels bits [] bit_index arr = Inr arr"
| "embed_pixels bits ((x, y) # cs) bit_index arr =
     (if bit_index \<ge> length bits then Inr arr
      else
        case get_pixel arr x y of
          Inl e \<Rightarrow> Inl e
        | Inr (r, g, b) \<Rightarrow>
            let (r1, i1) = (if bit_index < length bits
                            then (embed_bit r (bits ! bit_index), bit_index + 1)
                            else (r, bit_index));
                (g1, i2) = (if i1 < length bits
                            then (embed_bit g (bits ! i1), i1 + 1)
                            else (g, i1));
                (b1, i3) = (if i2 < length bits
                            then (embed_bit b (bits ! i2), i2 + 1)
                            else (b, i2))
            in embed_pixels bits cs i3 (set_pixel arr x y (r1, g1, b1)))"

text \<open>
  The frame of \<^verbatim>\<open>encode\<close>:
  \<^verbatim>\<open>message_data = message.encode()
  message_bytes = self.marker + struct.pack("<I", len(message_data)) + message_data\<close>
\<close>

definition frame_bytes :: "pystr \<Rightarrow> error + byte list" where
  "frame_bytes message =
     (let message_data = message in
      case struct_pack_le32 (length message_data) of
        Inl e \<Rightarrow> Inl e
      | Inr packed \<Rightarrow> Inr (marker @ packed @ message_data))"

text \<open>
  \<^verbatim>\<open>encode\<close>, from the loaded array to the array that is saved. The frame is built
  first (where \<^verbatim>\<open>struct.pack\<close> may raise), then the capacity is checked, then the pixel
  order is generated and the bits are embedded into a copy of the array. A failure
  returns no array, and nothing is saved.
\<close>

definition encode ::
  "'g pylib \<Rightarrow> 'g \<Rightarrow> image \<Rightarrow> pystr \<Rightarrow> pystr option \<Rightarrow> (error + image) \<times> 'g" where
  "encode lib g img_array message password =
     (case frame_bytes message of
        Inl e \<Rightarrow> (Inl e, g)
      | Inr message_bytes \<Rightarrow>
          let required_bits = length message_bytes * 8;
              available_bits = width img_array * height img_array * 3
          in if required_bits > available_bits
             then (Inl (CapacityError required_bits available_bits), g)
             else
               let (coords, g') =
                     pixel_coords lib g (width img_array) (height img_array) password;
                   bits = bytes_to_bits message_bytes
               in (embed_pixels bits coords 0 img_array, g'))"

section \<open>Decode\<close>

text \<open>
  Both reading loops of \<^verbatim>\<open>_decode_image\<close>: walk the coordinates, stop as soon as
  \<^verbatim>\<open>needed_bits\<close> bits are collected, and append the three channel bits of each pixel.
\<close>

fun scan_bits :: "image \<Rightarrow> (nat \<times> nat) list \<Rightarrow> nat \<Rightarrow> nat list \<Rightarrow> error + nat list" where
  "scan_bits arr [] needed_bits extracted_bits = Inr extracted_bits"
| "scan_bits arr ((x, y) # cs) needed_bits extracted_bits =
     (if length extracted_bits \<ge> needed_bits then Inr extracted_bits
      else
        case get_pixel arr x y of
          Inl e \<Rightarrow> Inl e
        | Inr (r, g, b) \<Rightarrow>
            scan_bits arr cs needed_bits
              (extracted_bits @ [extract_bit r, extract_bit g, extract_bit b]))"

text \<open>
  The body of the \<^verbatim>\<open>try\<close> block of \<^verbatim>\<open>_decode_image\<close>, after the pixel order is known.
  \<open>Inl\<close> is an exception raised inside the block, \<open>Inr None\<close> is \<^verbatim>\<open>return None\<close>.
\<close>

definition decode_body ::
  "'g pylib \<Rightarrow> image \<Rightarrow> nat \<Rightarrow> nat \<Rightarrow> (nat \<times> nat) list \<Rightarrow> error + pystr option" where
  "decode_body lib img_array w h coords =
     (let marker_size = length marker;
          header_size = marker_size + 4;
          needed_bits = header_size * 8
      in case scan_bits img_array coords needed_bits [] of
           Inl e \<Rightarrow> Inl e
         | Inr extracted_bits \<Rightarrow>
             let header_bytes = bits_to_bytes extracted_bits (header_size * 8)
             in if length header_bytes \<ge> marker_size \<and> take marker_size header_bytes = marker
                then
                  case struct_unpack_le32 (take 4 (drop marker_size header_bytes)) of
                    Inl e \<Rightarrow> Inl e
                  | Inr message_length \<Rightarrow>
                      if message_length \<le> 0 \<or> message_length > w * h then Inr None
                      else
                        let total_bytes_needed = header_size + message_length;
                            total_bits_needed = total_bytes_needed * 8
                        in case (if length extracted_bits < total_bits_needed
                                 then scan_bits img_array
                                        (drop (length extracted_bits div 3) coords)
                                        total_bits_needed extracted_bits
                                 else Inr extracted_bits) of
                             Inl e \<Rightarrow> Inl e
                           | Inr all_bits \<Rightarrow>
                               let all_bytes = bits_to_bytes all_bits total_bits_needed
                               in if length all_bytes \<ge> total_bytes_needed
                                  then
                                    let message_data =
                                          take message_length (drop header_size all_bytes)
                                    in if utf8_valid lib message_data
                                       then Inr (Some message_data)
                                       else Inr (Some (b64encode lib message_data))
                                  else Inr None
                else Inr None)"

text \<open>
  \<^verbatim>\<open>_decode_image\<close>: the whole body runs under \<^verbatim>\<open>try ... except Exception: return None\<close>.
\<close>

definition decode_image ::
  "'g pylib \<Rightarrow> 'g \<Rightarrow> image \<Rightarrow> nat \<Rightarrow> nat \<Rightarrow> pystr option \<Rightarrow> pystr option \<times> 'g" where
  "decode_image lib g img_array w h password =
     (let (coords, g') = pixel_coords lib g w h password
      in case decode_body lib img_array w h coords of
           Inl e \<Rightarrow> (None, g')
         | Inr result \<Rightarrow> (result, g'))"

text \<open>
  \<^verbatim>\<open>decode\<close>, from the loaded array: one attempt with the given password, and when its
  result is falsy and the password is truthy, one more attempt with \<^verbatim>\<open>None\<close>.
\<close>

definition decode :: "'g pylib \<Rightarrow> 'g \<Rightarrow> image \<Rightarrow> pystr option \<Rightarrow> pystr option \<times> 'g" where
  "decode lib g img_array password =
     (let w = width img_array;
          h = height img_array;
          (result, g1) = decode_image lib g img_array w h password
      in if truthy result then (result, g1)
         else if truthy password then
           (let (result2, g2) = decode_image lib g1 img_array w h None
            in if truthy result2 then (result2, g2) else (None, g2))
         else (None, g1))"

section \<open>Composition and sample inputs\<close>

text \<open>
  Encoding with password \<open>p\<close> and decoding the saved array with password \<open>q\<close>;
  the generator state left by \<^verbatim>\<open>encode\<close> is the one \<^verbatim>\<open>decode\<close> starts in.
\<close>

definition encode_then_decode ::
  "'g pylib \<Rightarrow> 'g \<Rightarrow> image \<Rightarrow> pystr \<Rightarrow> pystr option \<Rightarrow> pystr option
     \<Rightarrow> error + pystr option" where
  "encode_then_decode lib g img message p q =
     (case encode lib g img message p of
        (Inl e, g') \<Rightarrow> Inl e
      | (Inr stego, g') \<Rightarrow> Inr (fst (decode lib g' stego q)))"

text \<open>
  A small instance of the library parameters for concrete evaluations: the shuffle
  reverses the list, the digest has 32 bytes, and only ASCII counts as valid text.
\<close>

definition sample_lib :: "nat pylib" where
  "sample_lib =
     \<lparr> sha256 = (\<lambda>bs. replicate 32 (of_nat (length bs))),
       random_seed = (\<lambda>s. s),
       random_shuffle = (\<lambda>g xs. (rev xs, Suc g)),
       utf8_valid = (\<lambda>bs. list_all (\<lambda>b. b < 128) bs),
       b64encode = (\<lambda>bs. map (\<lambda>b. 65 + (b AND 15)) bs) \<rparr>"

text \<open>An all-black image of the given shape.\<close>

definition blank :: "nat \<Rightarrow> nat \<Rightarrow> image" where
  "blank w h = \<lparr> width = w, height = h, rows = replicate h (replicate w (0, 0, 0)) \<rparr>"

section \<open>Vocabulary of the statements\<close>

text \<open>The coordinates at which \<^verbatim>\<open>img_array[y, x]\<close> does not raise.\<close>

definition in_bounds :: "image \<Rightarrow> nat \<times> nat \<Rightarrow> bool" where
  "in_bounds arr c = (snd c < length (rows arr) \<and> fst c < length (rows arr ! snd c))"

text \<open>The pixel read by \<^verbatim>\<open>img_array[y, x]\<close> at coordinate \<open>c = (x, y)\<close>.\<close>

definition pixel_at :: "image \<Rightarrow> nat \<times> nat \<Rightarrow> pixel" where
  "pixel_at arr c = rows arr ! snd c ! fst c"

text \<open>
  What one pass of the loop body does to a channel when the running index is \<open>i\<close>:
  the bit \<open>bits ! i\<close> is embedded if there is one, and the channel is kept otherwise.
\<close>

definition embed_channel :: "nat list \<Rightarrow> nat \<Rightarrow> byte \<Rightarrow> byte" where
  "embed_channel bits i v = (if i < length bits then embed_bit v (bits ! i) else v)"

text \<open>The three channels of a pixel take the bits \<open>i\<close>, \<open>i + 1\<close>, \<open>i + 2\<close>, in the order red, green, blue.\<close>

definition embed_pixel :: "nat list \<Rightarrow> nat \<Rightarrow> pixel \<Rightarrow> pixel" where
  "embed_pixel bits i p =
     (case p of (r, g, b) \<Rightarrow>
        (embed_channel bits i r, embed_channel bits (i + 1) g, embed_channel bits (i + 2) b))"

text \<open>Two pixels agree on the seven high bits of every channel.\<close>

definition same_high_bits :: "pixel \<Rightarrow> pixel \<Rightarrow> bool" where
  "same_high_bits p q =
     (case (p, q) of ((r, g, b), (r', g', b')) \<Rightarrow>
        drop_bit 1 r' = drop_bit 1 r \<and> drop_bit 1 g' = drop_bit 1 g \<and> drop_bit 1 b' = drop_bit 1 b)"

text \<open>The three bits that a reading loop appends for one pixel.\<close>

definition pixel_lsbs :: "pixel \<Rightarrow> nat list" where
  "pixel_lsbs p = (case p of (r, g, b) \<Rightarrow> [extract_bit r, extract_bit g, extract_bit b])"

text \<open>The bits that reading the listed pixels in order yields.\<close>

definition lsb_stream :: "image \<Rightarrow> (nat \<times> nat) list \<Rightarrow> nat list" where
  "lsb_stream arr cs = concat (map (\<lambda>c. pixel_lsbs (pixel_at arr c)) cs)"

text \<open>
  The header bytes that \<^verbatim>\<open>_decode_image\<close> recovers: the bits of the first reading
  loop, converted to at most eleven bytes.
\<close>

definition recovered_header :: "image \<Rightarrow> (nat \<times> nat) list \<Rightarrow> error + byte list" where
  "recovered_header img coords =
     (case scan_bits img coords 88 [] of
        Inl e \<Rightarrow> Inl e
      | Inr extracted_bits \<Rightarrow> Inr (bits_to_bytes extracted_bits 88))"

section \<open>Sample images\<close>

text \<open>
  An all-black image of the given shape with the bits of the given bytes written, in
  raster order, by the embedding loop.
\<close>

definition raw_stego :: "nat \<Rightarrow> nat \<Rightarrow> byte list \<Rightarrow> image" where
  "raw_stego w h bs =
     (case embed_pixels (bytes_to_bits bs) (raster_coords w h) 0 (blank w h) of
        Inr arr \<Rightarrow> arr
      | Inl e \<Rightarrow> blank w h)"



section \<open>Embedding and extracting one bit\<close>

lemma clamp_uint8: "max 0 (min 255 (uint (v::byte))) = uint v"
  using uint_lt2p [of v] by simp

lemma embed_bit_word: "embed_bit v b = (v AND 0xFE) OR (of_nat b AND 1)"
  by (simp add: embed_bit_def clamp_uint8 of_int_and_eq of_int_or_eq)

lemma odd_byte_of_nat: "odd (of_nat b :: byte) \<longleftrightarrow> odd b"
  by (simp add: even_word_def unat_of_nat)

lemma extract_bit_odd: "extract_bit v = (if odd v then 1 else 0)"
  by (simp add: extract_bit_def and_one_eq mod_2_eq_odd)

lemma extract_embed: "extract_bit (embed_bit v b) = b mod 2"
  by (simp add: extract_bit_odd embed_bit_word and_one_eq even_or_iff even_and_iff
      odd_byte_of_nat mod_2_eq_odd)

lemma bit_embed_bit_Suc: "bit (embed_bit v b) (Suc n) = bit v (Suc n)"
proof -
  have a: "bit (of_nat b AND (1::byte)) (Suc n) = False"
    by (simp add: bit_and_iff bit_1_iff)
  have fe: "(0xFE::byte) = NOT 1" by simp
  have b: "n < 7 \<Longrightarrow> bit (0xFE::byte) (Suc n)"
    unfolding fe by (simp add: bit_not_iff bit_1_iff)
  show ?thesis
  proof (cases "n < 7")
    case True
    then show ?thesis using a b by (simp add: embed_bit_word bit_or_iff bit_and_iff)
  next
    case False
    then have "\<not> bit v (Suc n)" "\<not> bit (embed_bit v b) (Suc n)"
      by (auto dest!: bit_imp_le_length)
    then show ?thesis by simp
  qed
qed

lemma embed_high: "drop_bit 1 (embed_bit v b) = drop_bit 1 v"
  by (rule bit_eqI) (simp add: bit_drop_bit_eq bit_embed_bit_Suc)

lemma extract_bit_le: "extract_bit v \<le> 1"
  by (simp add: extract_bit_odd)

section \<open>Bytes and bits\<close>

lemma bytes_to_bits_Nil: "bytes_to_bits [] = []"
  by (simp add: bytes_to_bits_def)

lemma bytes_to_bits_Cons: "bytes_to_bits (b # bs) = map (\<lambda>i. unat (drop_bit i b AND 1)) [0..<8] @ bytes_to_bits bs"
  by (simp add: bytes_to_bits_def)

lemma bytes_to_bits_append: "bytes_to_bits (as @ bs) = bytes_to_bits as @ bytes_to_bits bs"
  by (simp add: bytes_to_bits_def)

lemma length_bytes_to_bits: "length (bytes_to_bits bs) = 8 * length bs"
  by (induction bs) (simp_all add: bytes_to_bits_Nil bytes_to_bits_Cons)

lemma bit_of_byte: "unat (drop_bit j (b::byte) AND 1) = (if bit b j then 1 else 0)"
  by (simp add: and_one_eq mod_2_eq_odd bit_iff_odd_drop_bit)

lemma bit_push_bit_one_byte: "bit (push_bit j (1::byte)) n \<longleftrightarrow> n = j \<and> n < 8"
  by (auto simp add: bit_exp_iff)

lemma bit_foldl_or:
  "bit (foldl (\<lambda>byte j. if P j then byte OR push_bit j 1 else byte) (acc::byte) js) n
     \<longleftrightarrow> bit acc n \<or> (n \<in> set js \<and> P n \<and> n < 8)"
proof (induction js arbitrary: acc)
  case Nil
  show ?case by simp
next
  case (Cons j js)
  have step: "bit (if P j then acc OR push_bit j 1 else acc) n \<longleftrightarrow> bit acc n \<or> (n = j \<and> P n \<and> n < 8)"
    by (cases "P j") (auto simp only: bit_or_iff bit_push_bit_one_byte if_True if_False)
  show ?case
    unfolding foldl_Cons Cons.IH step by auto
qed

lemma nth_bytes_to_bits:
  "k < length bs \<Longrightarrow> j < 8 \<Longrightarrow> bytes_to_bits bs ! (8 * k + j) = (if bit (bs ! k) j then 1 else 0)"
proof (induction bs arbitrary: k)
  case Nil
  then show ?case by simp
next
  case (Cons b bs)
  let ?f = "\<lambda>i. unat (drop_bit i b AND 1)"
  have len: "length (map ?f [0..<8]) = 8" by simp
  show ?case
  proof (cases k)
    case 0
    have "bytes_to_bits (b # bs) ! j = map ?f [0..<8] ! j"
      unfolding bytes_to_bits_Cons using Cons.prems(2) by (subst nth_append) (simp only: len if_True)
    also have "\<dots> = ?f j"
      using Cons.prems(2) by (subst nth_map) simp_all
    finally show ?thesis using 0 by (simp add: bit_of_byte)
  next
    case (Suc k')
    with Cons.prems have IH: "bytes_to_bits bs ! (8 * k' + j) = (if bit (bs ! k') j then 1 else 0)"
      by (intro Cons.IH) simp_all
    have "bytes_to_bits (b # bs) ! (8 * k + j) = bytes_to_bits bs ! (8 * k + j - 8)"
      unfolding bytes_to_bits_Cons using Suc by (subst nth_append) (simp only: len, simp)
    also have "8 * k + j - 8 = 8 * k' + j" using Suc by simp
    finally show ?thesis using IH Suc by simp
  qed
qed

lemma bit_bits_to_byte: "bit (bits_to_byte ex i) j \<longleftrightarrow> j < 8 \<and> ex ! (i + j) \<noteq> 0"
  unfolding bits_to_byte_def by (subst bit_foldl_or) auto

lemma bits_to_byte_of_bits:
  assumes "\<And>j. j < 8 \<Longrightarrow> ex ! (i + j) = (if bit b j then 1 else 0)"
  shows "bits_to_byte ex i = b"
proof (rule bit_word_eqI)
  fix n assume "n < LENGTH(8)"
  then have "n < 8" by simp
  then show "bit (bits_to_byte ex i) n \<longleftrightarrow> bit b n"
    using assms [of n] by (simp add: bit_bits_to_byte)
qed


lemma bits_to_bytes_full:
  assumes "8 * n \<le> length ex"
  shows "bits_to_bytes ex (8 * n) = map (\<lambda>k. bits_to_byte ex (8 * k)) [0..<n]"
proof -
  have "(8 * n + 7) div 8 = n" by simp
  moreover have "filter (\<lambda>i. i + 8 \<le> length ex) (map (\<lambda>k. 8 * k) [0..<n]) = map (\<lambda>k. 8 * k) [0..<n]"
    using assms by (intro filter_True) auto
  ultimately show ?thesis by (simp add: bits_to_bytes_def comp_def)
qed

lemma bits_to_bytes_prefix:
  assumes len: "8 * length bs \<le> length ex" and pre: "take (8 * length bs) ex = bytes_to_bits bs"
  shows "bits_to_bytes ex (8 * length bs) = bs"
proof -
  have "bits_to_byte ex (8 * k) = bs ! k" if "k < length bs" for k
  proof (rule bits_to_byte_of_bits)
    fix j :: nat assume j: "j < 8"
    with that have lt: "8 * k + j < 8 * length bs" by simp
    then have "ex ! (8 * k + j) = take (8 * length bs) ex ! (8 * k + j)" by simp
    also have "\<dots> = (if bit (bs ! k) j then 1 else 0)"
      unfolding pre using that j by (rule nth_bytes_to_bits)
    finally show "ex ! (8 * k + j) = (if bit (bs ! k) j then 1 else 0)" .
  qed
  then have "map (\<lambda>k. bits_to_byte ex (8 * k)) [0..<length bs] = map (\<lambda>k. bs ! k) [0..<length bs]"
    by simp
  then show ?thesis using len by (simp add: bits_to_bytes_full map_nth)
qed

lemma length_bits_to_bytes_le: "length (bits_to_bytes ex nbits) \<le> length ex div 8"
proof -
  let ?ks = "filter (\<lambda>k. 8 * k + 8 \<le> length ex) [0..<(nbits + 7) div 8]"
  have "length (bits_to_bytes ex nbits) = length ?ks"
    by (simp add: bits_to_bytes_def filter_map comp_def)
  also have "\<dots> = card (set ?ks)"
    by (rule distinct_card [symmetric]) simp
  also have "\<dots> \<le> card {0..<length ex div 8}"
    by (rule card_mono) auto
  finally show ?thesis by simp
qed

lemma le32_value:
  assumes "n < 2 ^ 32"
  shows "n mod 256 + 256 * (n div 256 mod 256 + 256 * (n div 65536 mod 256
           + 256 * (n div 16777216 mod 256))) = (n::nat)"
proof -
  have d2: "n div 65536 = n div 256 div 256"
    by (simp only: div_mult2_eq [symmetric]) simp
  have d3: "n div 16777216 = n div 256 div 256 div 256"
    by (simp only: div_mult2_eq [symmetric]) simp
  have "n < 16777216 * 256" using assms by simp
  then have "n div 16777216 < 256"
    by (simp only: less_mult_imp_div_less)
  then have m3: "n div 256 div 256 div 256 mod 256 = n div 256 div 256 div 256"
    by (simp only: d3 mod_less)
  show ?thesis
    by (simp only: d2 d3 m3 mod_mult_div_eq)
qed


lemma struct_pack_le32_bytes:
  "n < 2 ^ 32 \<Longrightarrow> struct_pack_le32 n =
     Inr [of_nat n, of_nat (n div 256), of_nat (n div 65536), of_nat (n div 16777216)]"
  by (simp add: struct_pack_le32_def upt_rec)

lemma struct_unpack_pack:
  assumes "n < 2 ^ 32"
  shows "struct_unpack_le32 [of_nat n, of_nat (n div 256), of_nat (n div 65536), of_nat (n div 16777216)] = Inr n"
proof -
  have "n < 16777216 * 256" using assms by simp
  then have "n div 16777216 < 256"
    by (simp only: less_mult_imp_div_less)
  then show ?thesis
    using le32_value [OF assms] by (simp add: struct_unpack_le32_def unat_of_nat)
qed

section \<open>Properties of the pixel order\<close>

lemma raster_coords_Suc:
  "raster_coords w (Suc h) = raster_coords w h @ map (\<lambda>x. (x, h)) [0..<w]"
  by (simp add: raster_coords_def)

lemma upt_row_split: "[0..<w * Suc h] = [0..<w * h] @ map (\<lambda>x. x + w * h) [0..<w]"
proof -
  have "[0..<w * h + w] = [0..<w * h] @ [w * h..<w * h + w]"
    by (rule upt_add_eq_append) simp
  moreover have "map (\<lambda>x. x + w * h) [0..<w] = [w * h..<w + w * h]"
    by (rule map_add_upt)
  moreover have "w + w * h = w * h + w" by simp
  moreover have "w * Suc h = w * h + w" by simp
  ultimately show ?thesis by (simp only:)
qed

lemma coord_row: "x < w \<Longrightarrow> ((x + w * h) mod w, (x + w * h) div w) = (x, h::nat)"
  by simp

lemma raster_coords_linear:
  "raster_coords w h = map (\<lambda>i. (i mod w, i div w)) [0..<w * h]"
proof (induction h)
  case 0
  show ?case by (simp add: raster_coords_def)
next
  case (Suc h)
  have "map (\<lambda>i. (i mod w, i div w)) (map (\<lambda>x. x + w * h) [0..<w]) = map (\<lambda>x. (x, h)) [0..<w]"
    unfolding map_map comp_def by (rule map_cong [OF refl]) (simp only: set_upt atLeastLessThan_iff coord_row)
  then show ?case
    by (simp only: raster_coords_Suc Suc.IH upt_row_split map_append)
qed

lemma inj_coord: "inj (\<lambda>i::nat. (i mod w, i div w))"
proof (rule injI)
  fix i j :: nat
  assume "(i mod w, i div w) = (j mod w, j div w)"
  then have "i mod w = j mod w" "i div w = j div w" by simp_all
  then have "i div w * w + i mod w = j div w * w + j mod w" by simp
  then show "i = j" by (simp only: div_mult_mod_eq)
qed

lemma coord_image:
  "(\<lambda>i::nat. (i mod w, i div w)) ` {0..<w * h} = {0..<w} \<times> {0..<h}"
proof (intro set_eqI iffI)
  fix c assume "c \<in> (\<lambda>i. (i mod w, i div w)) ` {0..<w * h}"
  then obtain i where i: "i < w * h" and c: "c = (i mod w, i div w)" by auto
  from i have "0 < w" by (cases w) simp_all
  moreover from i have "i div w < h" by (simp add: less_mult_imp_div_less mult.commute)
  ultimately show "c \<in> {0..<w} \<times> {0..<h}" using c by simp
next
  fix c assume "c \<in> {0..<w} \<times> {0..<h}"
  then obtain x y where c: "c = (x, y)" and x: "x < w" and y: "y < h" by auto
  have "y * w + x < w * h"
  proof -
    have "y * w + x < y * w + w" using x by simp
    also have "\<dots> = Suc y * w" by simp
    also have "\<dots> \<le> h * w" using y by (intro mult_le_mono1) simp
    finally show ?thesis by (simp add: mult.commute)
  qed
  moreover have "((y * w + x) mod w, (y * w + x) div w) = (x, y)" using x by simp
  ultimately show "c \<in> (\<lambda>i. (i mod w, i div w)) ` {0..<w * h}"
    unfolding c by (intro image_eqI [where x = "y * w + x"]) simp_all
qed

lemma coords_of_permutation:
  assumes "mset pixels = mset [0..<w * h]"
  shows "length (map (\<lambda>i. (i mod w, i div w)) pixels) = w * h"
    and "distinct (map (\<lambda>i. (i mod w, i div w)) pixels)"
    and "set (map (\<lambda>i. (i mod w, i div w)) pixels) = {0..<w} \<times> {0..<h}"
proof -
  have len: "length pixels = w * h"
    using mset_eq_length [OF assms] by simp
  have d: "distinct pixels"
    using mset_eq_imp_distinct_iff [OF assms] by simp
  have s: "set pixels = {0..<w * h}"
    using mset_eq_setD [OF assms] by simp
  show "length (map (\<lambda>i. (i mod w, i div w)) pixels) = w * h" using len by simp
  show "distinct (map (\<lambda>i. (i mod w, i div w)) pixels)"
    using d by (simp add: distinct_map inj_on_subset [OF inj_coord])
  show "set (map (\<lambda>i. (i mod w, i div w)) pixels) = {0..<w} \<times> {0..<h}"
    using s coord_image [of w h] by simp
qed

lemma raster_coords_props:
  "length (raster_coords w h) = w * h"
  "distinct (raster_coords w h)"
  "set (raster_coords w h) = {0..<w} \<times> {0..<h}"
  unfolding raster_coords_linear by (rule coords_of_permutation, rule refl)+

lemma shuffled_coords_props:
  assumes "shuffle_permutes lib"
  shows "length (fst (shuffled_coords lib seed w h)) = w * h"
    and "distinct (fst (shuffled_coords lib seed w h))"
    and "set (fst (shuffled_coords lib seed w h)) = {0..<w} \<times> {0..<h}"
proof -
  obtain pixels g2 where sh: "random_shuffle lib (random_seed lib seed) [0..<w * h] = (pixels, g2)"
    by (cases "random_shuffle lib (random_seed lib seed) [0..<w * h]")
  have "mset (fst (random_shuffle lib (random_seed lib seed) [0..<w * h])) = mset [0..<w * h]"
    using assms unfolding shuffle_permutes_def by blast
  then have m: "mset pixels = mset [0..<w * h]"
    by (simp add: sh)
  have eq: "fst (shuffled_coords lib seed w h) = map (\<lambda>i. (i mod w, i div w)) pixels"
    by (simp add: shuffled_coords_def sh)
  show "length (fst (shuffled_coords lib seed w h)) = w * h"
    and "distinct (fst (shuffled_coords lib seed w h))"
    and "set (fst (shuffled_coords lib seed w h)) = {0..<w} \<times> {0..<h}"
    unfolding eq by (rule coords_of_permutation [OF m])+
qed

lemma pixel_coords_cases:
  "fst (pixel_coords lib g w h password) =
     (if truthy password then fst (shuffled_coords lib (password_seed lib (the password)) w h)
      else raster_coords w h)"
  by (cases password) (simp_all add: pixel_coords_def)

lemma pixel_coords_props:
  assumes "shuffle_permutes lib"
  shows "length (fst (pixel_coords lib g w h password)) = w * h"
    and "distinct (fst (pixel_coords lib g w h password))"
    and "set (fst (pixel_coords lib g w h password)) = {0..<w} \<times> {0..<h}"
  unfolding pixel_coords_cases
  using shuffled_coords_props [OF assms] raster_coords_props by simp_all

section \<open>Array access and the embedding loop\<close>

lemma get_pixel_eq:
  "get_pixel arr x y = (if in_bounds arr (x, y) then Inr (pixel_at arr (x, y)) else Inl IndexError)"
  by (simp add: get_pixel_def in_bounds_def pixel_at_def)

lemma in_bounds_set_pixel: "in_bounds (set_pixel arr x y p) c = in_bounds arr c"
  by (cases "snd c = y") (auto simp add: in_bounds_def set_pixel_def)

lemma pixel_at_set_pixel:
  "in_bounds arr (x, y) \<Longrightarrow>
     pixel_at (set_pixel arr x y p) c = (if c = (x, y) then p else pixel_at arr c)"
  by (cases c) (auto simp add: in_bounds_def pixel_at_def set_pixel_def nth_list_update)

lemma shape_set_pixel:
  "width (set_pixel arr x y p) = width arr"
  "height (set_pixel arr x y p) = height arr"
  "length (rows (set_pixel arr x y p)) = length (rows arr)"
  by (simp_all add: set_pixel_def)

lemma row_length_set_pixel:
  "length (rows (set_pixel arr x y p) ! j) = length (rows arr ! j)"
  by (cases "j = y"; cases "y < length (rows arr)") (simp_all add: set_pixel_def list_update_beyond)

lemma embed_pixel_past_end: "length bits \<le> i \<Longrightarrow> embed_pixel bits i p = p"
  by (cases p) (simp add: embed_pixel_def embed_channel_def)

lemma embed_pixels_break: "length bits \<le> bi \<Longrightarrow> embed_pixels bits cs bi arr = Inr arr"
  by (cases cs) auto

lemma embed_pixels_fail:
  "bi < length bits \<Longrightarrow> \<not> in_bounds arr (x, y) \<Longrightarrow>
     embed_pixels bits ((x, y) # cs) bi arr = Inl IndexError"
  by (simp add: get_pixel_eq)

lemma embed_pixels_step:
  assumes "bi < length bits" and "in_bounds arr (x, y)"
  shows "embed_pixels bits ((x, y) # cs) bi arr =
           embed_pixels bits cs (min (length bits) (bi + 3))
             (set_pixel arr x y (embed_pixel bits bi (pixel_at arr (x, y))))"
proof -
  obtain r g b where p: "pixel_at arr (x, y) = (r, g, b)"
    by (cases "pixel_at arr (x, y)")
  consider (a) "bi + 3 \<le> length bits" | (b) "bi + 2 = length bits" | (c) "bi + 1 = length bits"
    using assms(1) by linarith
  then show ?thesis
  proof cases
    case a
    then have "min (length bits) (bi + 3) = bi + 3" by simp
    with a assms show ?thesis
      by (simp add: get_pixel_eq p embed_pixel_def embed_channel_def numeral_3_eq_3)
  next
    case b
    then have "min (length bits) (bi + 3) = bi + 2" by simp
    with b assms show ?thesis
      by (simp add: get_pixel_eq p embed_pixel_def embed_channel_def)
  next
    case c
    then have "min (length bits) (bi + 3) = bi + 1" by simp
    with c assms show ?thesis
      by (simp add: get_pixel_eq p embed_pixel_def embed_channel_def)
  qed
qed

declare embed_pixels.simps(2) [simp del]

lemma embed_pixels_cases:
  obtains (break) "length bits \<le> bi" "embed_pixels bits ((x, y) # cs) bi arr = Inr arr"
  | (fail) "bi < length bits" "\<not> in_bounds arr (x, y)"
      "embed_pixels bits ((x, y) # cs) bi arr = Inl IndexError"
  | (step) "bi < length bits" "in_bounds arr (x, y)"
      "embed_pixels bits ((x, y) # cs) bi arr =
         embed_pixels bits cs (min (length bits) (bi + 3))
           (set_pixel arr x y (embed_pixel bits bi (pixel_at arr (x, y))))"
  using embed_pixels_break embed_pixels_fail embed_pixels_step
  by (cases "bi < length bits"; cases "in_bounds arr (x, y)") (simp_all add: not_less)

lemma embed_pixels_error: "embed_pixels bits cs bi arr = Inl e \<Longrightarrow> e = IndexError"
proof (induction cs arbitrary: bi arr)
  case Nil
  then show ?case by simp
next
  case (Cons c cs)
  obtain x y where c: "c = (x, y)" by (cases c)
  show ?case
    using Cons.prems unfolding c
    by (cases rule: embed_pixels_cases [of bits bi x y cs arr]) (auto dest: Cons.IH)
qed

lemma embed_pixels_shape:
  "embed_pixels bits cs bi arr = Inr arr' \<Longrightarrow>
     width arr' = width arr \<and> height arr' = height arr \<and>
     length (rows arr') = length (rows arr) \<and>
     (\<forall>j. length (rows arr' ! j) = length (rows arr ! j))"
proof (induction cs arbitrary: bi arr)
  case Nil
  then show ?case by simp
next
  case (Cons c cs)
  obtain x y where c: "c = (x, y)" by (cases c)
  show ?case
    using Cons.prems unfolding c
  proof (cases rule: embed_pixels_cases [of bits bi x y cs arr])
    case step
    with Cons.prems c have "embed_pixels bits cs (min (length bits) (bi + 3))
           (set_pixel arr x y (embed_pixel bits bi (pixel_at arr (x, y)))) = Inr arr'"
      by simp
    from Cons.IH [OF this] show ?thesis
      by (simp add: shape_set_pixel row_length_set_pixel)
  qed (use Cons.prems c in auto)
qed

lemma embed_pixels_in_bounds:
  "embed_pixels bits cs bi arr = Inr arr' \<Longrightarrow> in_bounds arr' c = in_bounds arr c"
  by (drule embed_pixels_shape) (simp add: in_bounds_def)

lemma embed_pixels_unvisited:
  "embed_pixels bits cs bi arr = Inr arr' \<Longrightarrow> c \<notin> set cs \<Longrightarrow> pixel_at arr' c = pixel_at arr c"
proof (induction cs arbitrary: bi arr)
  case Nil
  then show ?case by simp
next
  case (Cons d cs)
  obtain x y where d: "d = (x, y)" by (cases d)
  show ?case
  proof (cases rule: embed_pixels_cases [of bits bi x y cs arr])
    case break
    with Cons.prems d show ?thesis by simp
  next
    case fail
    with Cons.prems d show ?thesis by simp
  next
    case step
    with Cons.prems d have "embed_pixels bits cs (min (length bits) (bi + 3))
           (set_pixel arr x y (embed_pixel bits bi (pixel_at arr (x, y)))) = Inr arr'"
      by simp
    from Cons.IH [OF this] Cons.prems(2) d step(2) show ?thesis
      by (simp add: pixel_at_set_pixel)
  qed
qed

lemma embed_pixel_min:
  "embed_pixel bits (min (length bits) (bi + 3) + 3 * k) p = embed_pixel bits (bi + 3 * Suc k) p"
proof (cases "bi + 3 \<le> length bits")
  case True
  then have "min (length bits) (bi + 3) + 3 * k = bi + 3 * Suc k" by simp
  then show ?thesis by (simp only:)
next
  case False
  then show ?thesis by (simp add: embed_pixel_past_end)
qed

lemma embed_pixels_visited:
  "embed_pixels bits cs bi arr = Inr arr' \<Longrightarrow> distinct cs \<Longrightarrow> k < length cs \<Longrightarrow>
     pixel_at arr' (cs ! k) = embed_pixel bits (bi + 3 * k) (pixel_at arr (cs ! k))"
proof (induction cs arbitrary: bi arr k)
  case Nil
  then show ?case by simp
next
  case (Cons d cs)
  obtain x y where d: "d = (x, y)" by (cases d)
  show ?case
  proof (cases rule: embed_pixels_cases [of bits bi x y cs arr])
    case break
    with Cons.prems d show ?thesis by (simp add: embed_pixel_past_end)
  next
    case fail
    with Cons.prems d show ?thesis by simp
  next
    case step
    let ?arr1 = "set_pixel arr x y (embed_pixel bits bi (pixel_at arr (x, y)))"
    from step Cons.prems d have run: "embed_pixels bits cs (min (length bits) (bi + 3)) ?arr1 = Inr arr'"
      by simp
    show ?thesis
    proof (cases k)
      case 0
      have "(x, y) \<notin> set cs" using Cons.prems(2) d by simp
      from embed_pixels_unvisited [OF run this] step(2) 0 d show ?thesis
        by (simp add: pixel_at_set_pixel)
    next
      case (Suc k')
      with Cons.prems have k': "k' < length cs" and dist: "distinct cs" by simp_all
      have "cs ! k' \<in> set cs" using k' by (rule nth_mem)
      moreover have "(x, y) \<notin> set cs" using Cons.prems(2) d by simp
      ultimately have ne: "cs ! k' \<noteq> (x, y)" by auto
      from Cons.IH [OF run dist k'] ne step(2) Suc show ?thesis
        by (simp add: pixel_at_set_pixel embed_pixel_min)
    qed
  qed
qed

lemma embed_pixels_success:
  "\<forall>c\<in>set cs. in_bounds arr c \<Longrightarrow> \<exists>arr'. embed_pixels bits cs bi arr = Inr arr'"
proof (induction cs arbitrary: bi arr)
  case Nil
  then show ?case by simp
next
  case (Cons d cs)
  obtain x y where d: "d = (x, y)" by (cases d)
  show ?case
  proof (cases rule: embed_pixels_cases [of bits bi x y cs arr])
    case break
    then show ?thesis by (simp add: d)
  next
    case fail
    with Cons.prems d show ?thesis by simp
  next
    case step
    have "\<forall>c\<in>set cs. in_bounds (set_pixel arr x y (embed_pixel bits bi (pixel_at arr (x, y)))) c"
      using Cons.prems by (simp add: in_bounds_set_pixel)
    from Cons.IH [OF this] step(3) show ?thesis by (simp add: d)
  qed
qed

section \<open>The reading loops\<close>

lemma length_pixel_lsbs: "length (pixel_lsbs p) = 3"
  by (cases p) (simp add: pixel_lsbs_def)

lemma lsb_stream_Nil: "lsb_stream arr [] = []"
  by (simp add: lsb_stream_def)

lemma lsb_stream_Cons: "lsb_stream arr (c # cs) = pixel_lsbs (pixel_at arr c) @ lsb_stream arr cs"
  by (simp add: lsb_stream_def)

lemma lsb_stream_append: "lsb_stream arr (cs @ ds) = lsb_stream arr cs @ lsb_stream arr ds"
  by (simp add: lsb_stream_def)

lemma length_lsb_stream: "length (lsb_stream arr cs) = 3 * length cs"
  by (induction cs) (simp_all add: lsb_stream_Nil lsb_stream_Cons length_pixel_lsbs)

lemma nth_lsb_stream:
  "k < length cs \<Longrightarrow> j < 3 \<Longrightarrow>
     lsb_stream arr cs ! (3 * k + j) = pixel_lsbs (pixel_at arr (cs ! k)) ! j"
proof (induction cs arbitrary: k)
  case Nil
  then show ?case by simp
next
  case (Cons c cs)
  show ?case
  proof (cases k)
    case 0
    with Cons.prems show ?thesis
      by (simp add: lsb_stream_Cons nth_append length_pixel_lsbs)
  next
    case (Suc k')
    with Cons.prems have "lsb_stream arr cs ! (3 * k' + j) = pixel_lsbs (pixel_at arr (cs ! k')) ! j"
      by (intro Cons.IH) simp_all
    moreover have "3 * k + j - 3 = 3 * k' + j" using Suc by simp
    ultimately show ?thesis using Suc
      by (simp add: lsb_stream_Cons nth_append length_pixel_lsbs)
  qed
qed

lemma take_lsb_stream_take:
  assumes "n \<le> 3 * m"
  shows "take n (lsb_stream arr (take m cs)) = take n (lsb_stream arr cs)"
proof (cases "m \<le> length cs")
  case True
  have "lsb_stream arr cs = lsb_stream arr (take m cs) @ lsb_stream arr (drop m cs)"
    by (simp add: lsb_stream_append [symmetric])
  moreover have "n \<le> length (lsb_stream arr (take m cs))"
    using assms True by (simp add: length_lsb_stream)
  ultimately show ?thesis by simp
next
  case False
  then show ?thesis by simp
qed

declare scan_bits.simps(2) [simp del]

lemma scan_bits_done:
  "needed \<le> length ex \<Longrightarrow> scan_bits arr cs needed ex = Inr ex"
  by (cases cs) (auto simp add: scan_bits.simps(2))

lemma scan_bits_step:
  "length ex < needed \<Longrightarrow> in_bounds arr (x, y) \<Longrightarrow>
     scan_bits arr ((x, y) # cs) needed ex =
       scan_bits arr cs needed (ex @ pixel_lsbs (pixel_at arr (x, y)))"
  by (cases "pixel_at arr (x, y)") (simp add: scan_bits.simps(2) get_pixel_eq pixel_lsbs_def)

lemma scan_bits_fail:
  "length ex < needed \<Longrightarrow> \<not> in_bounds arr (x, y) \<Longrightarrow>
     scan_bits arr ((x, y) # cs) needed ex = Inl IndexError"
  by (simp add: scan_bits.simps(2) get_pixel_eq)

lemma scan_bits_length:
  "scan_bits arr cs needed ex = Inr out \<Longrightarrow>
     \<exists>k\<le>length cs. length out = length ex + 3 * k"
proof (induction cs arbitrary: ex)
  case Nil
  then show ?case by simp
next
  case (Cons c cs)
  obtain x y where c: "c = (x, y)" by (cases c)
  show ?case
  proof (cases "needed \<le> length ex")
    case True
    with Cons.prems show ?thesis by (simp add: scan_bits_done)
  next
    case False
    show ?thesis
    proof (cases "in_bounds arr (x, y)")
      case True
      with False Cons.prems c
      have "scan_bits arr cs needed (ex @ pixel_lsbs (pixel_at arr (x, y))) = Inr out"
        by (simp add: scan_bits_step)
      from Cons.IH [OF this] obtain k where "k \<le> length cs"
        and "length out = length ex + 3 + 3 * k"
        by (auto simp add: length_pixel_lsbs)
      then have "Suc k \<le> length (c # cs)" "length out = length ex + 3 * Suc k" by simp_all
      then show ?thesis by blast
    next
      case nb: False
      with False Cons.prems c show ?thesis by (simp add: scan_bits_fail)
    qed
  qed
qed

lemma scan_bits_in_bounds:
  "\<forall>c\<in>set cs. in_bounds arr c \<Longrightarrow>
     \<exists>k\<le>length cs. scan_bits arr cs needed ex = Inr (ex @ lsb_stream arr (take k cs)) \<and>
        (k = length cs \<or> needed \<le> length ex + 3 * k)"
proof (induction cs arbitrary: ex)
  case Nil
  show ?case by (simp add: lsb_stream_Nil)
next
  case (Cons c cs)
  obtain x y where c: "c = (x, y)" by (cases c)
  show ?case
  proof (cases "needed \<le> length ex")
    case True
    then have "scan_bits arr (c # cs) needed ex = Inr (ex @ lsb_stream arr (take 0 (c # cs)))"
      by (simp add: scan_bits_done lsb_stream_Nil)
    with True show ?thesis by (intro exI [of _ 0]) simp
  next
    case False
    from Cons.prems have inb: "in_bounds arr (x, y)" and rest: "\<forall>c\<in>set cs. in_bounds arr c"
      by (simp_all add: c)
    from Cons.IH [OF rest, of "ex @ pixel_lsbs (pixel_at arr (x, y))"]
    obtain k where k: "k \<le> length cs"
      and run: "scan_bits arr cs needed (ex @ pixel_lsbs (pixel_at arr (x, y))) =
                 Inr ((ex @ pixel_lsbs (pixel_at arr (x, y))) @ lsb_stream arr (take k cs))"
      and fin: "k = length cs \<or> needed \<le> length (ex @ pixel_lsbs (pixel_at arr (x, y))) + 3 * k"
      by blast
    have "scan_bits arr (c # cs) needed ex = Inr (ex @ lsb_stream arr (take (Suc k) (c # cs)))"
      using False inb run by (simp add: c scan_bits_step lsb_stream_Cons)
    moreover have "Suc k = length (c # cs) \<or> needed \<le> length ex + 3 * Suc k"
      using fin by (auto simp add: length_pixel_lsbs)
    moreover have "Suc k \<le> length (c # cs)" using k by simp
    ultimately show ?thesis by blast
  qed
qed

section \<open>What encoding leaves in the low bits\<close>

lemma length_marker: "length marker = 7"
  by (simp add: marker_def)

lemma bytes_to_bits_le_1: "b \<in> set (bytes_to_bits bs) \<Longrightarrow> b \<le> 1"
  by (auto simp add: bytes_to_bits_def bit_of_byte)

lemma pixel_lsbs_embed:
  assumes "j < 3" and "3 * k + j < length bits"
  shows "pixel_lsbs (embed_pixel bits (3 * k) p) ! j = bits ! (3 * k + j) mod 2"
proof -
  obtain r g b where p: "p = (r, g, b)" by (cases p)
  from assms(1) consider "j = 0" | "j = 1" | "j = 2" by linarith
  then show ?thesis
    using assms(2)
    by cases (simp_all add: p pixel_lsbs_def embed_pixel_def embed_channel_def extract_embed)
qed

lemma embed_lsb_prefix:
  assumes run: "embed_pixels bits cs 0 arr = Inr arr'"
    and dist: "distinct cs"
    and len: "length bits \<le> 3 * length cs"
    and bin: "\<forall>b\<in>set bits. b \<le> 1"
  shows "take (length bits) (lsb_stream arr' cs) = bits"
proof (rule nth_equalityI)
  show "length (take (length bits) (lsb_stream arr' cs)) = length bits"
    using len by (simp add: length_lsb_stream)
next
  fix i assume "i < length (take (length bits) (lsb_stream arr' cs))"
  then have i: "i < length bits" by simp
  define k where "k = i div 3"
  define j where "j = i mod 3"
  have ij: "i = 3 * k + j" and j: "j < 3" by (simp_all add: k_def j_def)
  have k: "k < length cs" using i len ij by linarith
  have "bits ! i \<le> 1" using bin i by simp
  then have b: "bits ! i mod 2 = bits ! i" by simp
  have "take (length bits) (lsb_stream arr' cs) ! i = lsb_stream arr' cs ! (3 * k + j)"
    using i ij by simp
  also have "\<dots> = pixel_lsbs (pixel_at arr' (cs ! k)) ! j"
    using k j by (rule nth_lsb_stream)
  also have "pixel_at arr' (cs ! k) = embed_pixel bits (3 * k) (pixel_at arr (cs ! k))"
    using embed_pixels_visited [OF run dist k] by simp
  also have "pixel_lsbs (embed_pixel bits (3 * k) (pixel_at arr (cs ! k))) ! j = bits ! (3 * k + j) mod 2"
    using j i ij by (intro pixel_lsbs_embed) simp_all
  finally show "take (length bits) (lsb_stream arr' cs) ! i = bits ! i"
    using b ij by simp
qed

lemma scan_two_stage:
  assumes inb: "\<forall>c\<in>set cs. in_bounds arr c"
    and n12: "n1 \<le> n2" and cap: "n2 \<le> 3 * length cs"
  shows "\<exists>ex1. scan_bits arr cs n1 [] = Inr ex1 \<and> n1 \<le> length ex1 \<and>
           take n1 ex1 = take n1 (lsb_stream arr cs) \<and>
           (\<exists>ex2. (if length ex1 < n2
                    then scan_bits arr (drop (length ex1 div 3) cs) n2 ex1
                    else Inr ex1) = Inr ex2 \<and>
                  n2 \<le> length ex2 \<and> take n2 ex2 = take n2 (lsb_stream arr cs))"
proof -
  from scan_bits_in_bounds [OF inb, of n1 "[]"]
  obtain k1 where k1: "k1 \<le> length cs"
    and s1: "scan_bits arr cs n1 [] = Inr (lsb_stream arr (take k1 cs))"
    and f1: "k1 = length cs \<or> n1 \<le> 3 * k1"
    by auto
  let ?ex1 = "lsb_stream arr (take k1 cs)"
  have l1: "length ?ex1 = 3 * k1" using k1 by (simp add: length_lsb_stream)
  have n1: "n1 \<le> 3 * k1" using f1 n12 cap by auto
  have t1: "take n1 ?ex1 = take n1 (lsb_stream arr cs)"
    using n1 by (rule take_lsb_stream_take)
  have "\<exists>m\<le>length cs. n2 \<le> 3 * m \<and>
          (if length ?ex1 < n2 then scan_bits arr (drop (length ?ex1 div 3) cs) n2 ?ex1
           else Inr ?ex1) = Inr (lsb_stream arr (take m cs))"
  proof (cases "length ?ex1 < n2")
    case False
    with l1 k1 show ?thesis by (intro exI [of _ k1]) simp
  next
    case True
    have inb2: "\<forall>c\<in>set (drop k1 cs). in_bounds arr c"
      using inb by (meson in_set_dropD)
    from scan_bits_in_bounds [OF inb2, of n2 ?ex1]
    obtain k2 where k2: "k2 \<le> length (drop k1 cs)"
      and s2: "scan_bits arr (drop k1 cs) n2 ?ex1 = Inr (?ex1 @ lsb_stream arr (take k2 (drop k1 cs)))"
      and f2: "k2 = length (drop k1 cs) \<or> n2 \<le> length ?ex1 + 3 * k2"
      by blast
    have "?ex1 @ lsb_stream arr (take k2 (drop k1 cs)) = lsb_stream arr (take (k1 + k2) cs)"
      by (simp add: take_add lsb_stream_append)
    moreover have "k1 + k2 \<le> length cs" using k1 k2 by simp
    moreover have "n2 \<le> 3 * (k1 + k2)" using f2 l1 cap k1 by auto
    ultimately show ?thesis using True s2 l1 by (intro exI [of _ "k1 + k2"]) simp
  qed
  then obtain m where m: "m \<le> length cs" and n2: "n2 \<le> 3 * m"
    and s2: "(if length ?ex1 < n2 then scan_bits arr (drop (length ?ex1 div 3) cs) n2 ?ex1
           else Inr ?ex1) = Inr (lsb_stream arr (take m cs))"
    by blast
  have "n2 \<le> length (lsb_stream arr (take m cs))"
    using m n2 by (simp add: length_lsb_stream)
  moreover have "take n2 (lsb_stream arr (take m cs)) = take n2 (lsb_stream arr cs)"
    using n2 by (rule take_lsb_stream_take)
  ultimately show ?thesis
    using s1 l1 n1 t1 s2 by (intro exI [of _ ?ex1]) simp
qed

section \<open>Decoding an array that holds a frame\<close>

lemma decode_body_unfold:
  "decode_body lib arr w h cs =
     (case scan_bits arr cs 88 [] of
        Inl e \<Rightarrow> Inl e
      | Inr ex \<Rightarrow>
          if 7 \<le> length (bits_to_bytes ex 88) \<and> take 7 (bits_to_bytes ex 88) = marker
          then
            case struct_unpack_le32 (take 4 (drop 7 (bits_to_bytes ex 88))) of
              Inl e \<Rightarrow> Inl e
            | Inr n \<Rightarrow>
                if n = 0 \<or> w * h < n then Inr None
                else
                  case (if length ex < 8 * (11 + n)
                        then scan_bits arr (drop (length ex div 3) cs) (8 * (11 + n)) ex
                        else Inr ex) of
                    Inl e \<Rightarrow> Inl e
                  | Inr ex2 \<Rightarrow>
                      if 11 + n \<le> length (bits_to_bytes ex2 (8 * (11 + n)))
                      then
                        if utf8_valid lib (take n (drop 11 (bits_to_bytes ex2 (8 * (11 + n)))))
                        then Inr (Some (take n (drop 11 (bits_to_bytes ex2 (8 * (11 + n))))))
                        else Inr (Some (b64encode lib
                               (take n (drop 11 (bits_to_bytes ex2 (8 * (11 + n)))))))
                      else Inr None
          else Inr None)"
  by (simp add: decode_body_def Let_def length_marker mult.commute cong: sum.case_cong if_cong)

lemma decode_body_frame:
  assumes inb: "\<forall>c\<in>set cs. in_bounds arr c"
    and cap: "8 * (11 + length msg) \<le> 3 * length cs"
    and packed: "length packed = 4" "struct_unpack_le32 packed = Inr (length msg)"
    and fr: "take (8 * (11 + length msg)) (lsb_stream arr cs) = bytes_to_bits (marker @ packed @ msg)"
  shows "decode_body lib arr w h cs =
           Inr (if msg = [] \<or> w * h < length msg then None
                else if utf8_valid lib msg then Some msg else Some (b64encode lib msg))"
proof -
  let ?n = "length msg"
  let ?frame = "marker @ packed @ msg"
  have lf: "length ?frame = 11 + ?n" by (simp add: length_marker packed)
  from scan_two_stage [OF inb _ cap, of 88]
  obtain ex1 ex2 where s1: "scan_bits arr cs 88 [] = Inr ex1" and l1: "88 \<le> length ex1"
    and t1: "take 88 ex1 = take 88 (lsb_stream arr cs)"
    and s2: "(if length ex1 < 8 * (11 + ?n)
              then scan_bits arr (drop (length ex1 div 3) cs) (8 * (11 + ?n)) ex1
              else Inr ex1) = Inr ex2"
    and l2: "8 * (11 + ?n) \<le> length ex2"
    and t2: "take (8 * (11 + ?n)) ex2 = take (8 * (11 + ?n)) (lsb_stream arr cs)"
    by auto
  have "take 88 (lsb_stream arr cs) = take 88 (take (8 * (11 + ?n)) (lsb_stream arr cs))"
    by simp
  also have "\<dots> = take 88 (bytes_to_bits (marker @ packed) @ bytes_to_bits msg)"
    by (simp only: fr bytes_to_bits_append append_assoc)
  also have "\<dots> = bytes_to_bits (marker @ packed)"
    by (simp add: length_bytes_to_bits length_marker packed)
  finally have "take (8 * length (marker @ packed)) ex1 = bytes_to_bits (marker @ packed)"
    using t1 by (simp add: length_marker packed)
  moreover have "8 * length (marker @ packed) \<le> length ex1"
    using l1 by (simp add: length_marker packed)
  ultimately have "bits_to_bytes ex1 (8 * length (marker @ packed)) = marker @ packed"
    by (intro bits_to_bytes_prefix)
  then have hb: "bits_to_bytes ex1 88 = marker @ packed"
    by (simp add: length_marker packed)
  have "take (8 * length ?frame) ex2 = bytes_to_bits ?frame"
    using t2 fr by (simp only: lf)
  moreover have "8 * length ?frame \<le> length ex2" using l2 by (simp only: lf)
  ultimately have "bits_to_bytes ex2 (8 * length ?frame) = ?frame"
    by (intro bits_to_bytes_prefix)
  then have ab: "bits_to_bytes ex2 (8 * (11 + ?n)) = ?frame"
    by (simp only: lf)
  have md: "take ?n (drop 11 ?frame) = msg"
    by (simp add: length_marker packed)
  show ?thesis
    using s2 ab md
    by (simp add: decode_body_unfold s1 hb length_marker packed split: if_splits)
qed

section \<open>Encoding as a whole\<close>

lemma wf_image_in_bounds:
  assumes "wf_image img"
  shows "in_bounds img (x, y) \<longleftrightarrow> x < width img \<and> y < height img"
proof (cases "y < height img")
  case True
  with assms have "rows img ! y \<in> set (rows img)" by (simp add: wf_image_def)
  with assms have "length (rows img ! y) = width img"
    by (simp add: wf_image_def list_all_iff)
  with assms True show ?thesis by (simp add: wf_image_def in_bounds_def)
next
  case False
  with assms show ?thesis by (simp add: wf_image_def in_bounds_def)
qed

lemma wf_image_embed_pixels:
  assumes "wf_image img" and "embed_pixels bits cs bi img = Inr stego"
  shows "wf_image stego"
proof -
  from embed_pixels_shape [OF assms(2)]
  have w: "width stego = width img" and h: "height stego = height img"
    and l: "length (rows stego) = length (rows img)"
    and r: "\<And>j. length (rows stego ! j) = length (rows img ! j)" by simp_all
  have "length (rows stego ! j) = width stego" if "j < length (rows stego)" for j
  proof -
    from that l have "rows img ! j \<in> set (rows img)" by simp
    with assms(1) have "length (rows img ! j) = width img"
      by (simp add: wf_image_def list_all_iff)
    then show ?thesis by (simp add: r w)
  qed
  then have "list_all (\<lambda>r. length r = width stego) (rows stego)"
    by (simp add: list_all_length)
  with assms(1) l h show ?thesis by (simp add: wf_image_def)
qed


lemma pixel_coords_shuffled:
  "truthy password \<Longrightarrow>
     pixel_coords lib g w h password = shuffled_coords lib (password_seed lib (the password)) w h"
  by (cases password) (simp_all add: pixel_coords_def)

lemma pixel_coords_state_free:
  "fst (pixel_coords lib g1 w h password) = fst (pixel_coords lib g2 w h password)"
  by (simp add: pixel_coords_cases)

lemma pixel_coords_props':
  assumes "truthy password \<longrightarrow> shuffle_permutes lib"
  shows "length (fst (pixel_coords lib g w h password)) = w * h"
    and "distinct (fst (pixel_coords lib g w h password))"
    and "set (fst (pixel_coords lib g w h password)) = {0..<w} \<times> {0..<h}"
proof -
  show "length (fst (pixel_coords lib g w h password)) = w * h"
    using assms shuffled_coords_props(1) raster_coords_props(1)
    by (cases "truthy password") (simp_all add: pixel_coords_cases)
  show "distinct (fst (pixel_coords lib g w h password))"
    using assms shuffled_coords_props(2) raster_coords_props(2)
    by (cases "truthy password") (simp_all add: pixel_coords_cases)
  show "set (fst (pixel_coords lib g w h password)) = {0..<w} \<times> {0..<h}"
    using assms shuffled_coords_props(3) raster_coords_props(3)
    by (cases "truthy password") (simp_all add: pixel_coords_cases)
qed

lemma pixel_coords_in_bounds:
  assumes "wf_image img" and "truthy password \<longrightarrow> shuffle_permutes lib"
  shows "\<forall>c\<in>set (fst (pixel_coords lib g (width img) (height img) password)). in_bounds img c"
proof
  fix c assume "c \<in> set (fst (pixel_coords lib g (width img) (height img) password))"
  then have "c \<in> {0..<width img} \<times> {0..<height img}"
    by (simp only: pixel_coords_props'(3) [OF assms(2)])
  then show "in_bounds img c"
    by (cases c) (simp add: wf_image_in_bounds [OF assms(1)])
qed

lemma frame_bytes_eq:
  "length msg < 2 ^ 32 \<Longrightarrow>
     frame_bytes msg =
       Inr (marker @ [of_nat (length msg), of_nat (length msg div 256),
                      of_nat (length msg div 65536), of_nat (length msg div 16777216)] @ msg)"
  by (simp add: frame_bytes_def struct_pack_le32_bytes)

lemma frame_bytes_too_long:
  "\<not> length msg < 2 ^ 32 \<Longrightarrow> frame_bytes msg = Inl StructError"
  by (simp add: frame_bytes_def struct_pack_le32_def)

lemma frame_bytes_length: "frame_bytes msg = Inr frame \<Longrightarrow> length frame = 11 + length msg"
  by (cases "length msg < 2 ^ 32") (auto simp add: frame_bytes_eq frame_bytes_too_long length_marker)

lemma encode_unfold:
  assumes "frame_bytes msg = Inr frame"
  shows "encode lib g img msg password =
           (if width img * height img * 3 < length frame * 8
            then (Inl (CapacityError (length frame * 8) (width img * height img * 3)), g)
            else (embed_pixels (bytes_to_bits frame)
                    (fst (pixel_coords lib g (width img) (height img) password)) 0 img,
                  snd (pixel_coords lib g (width img) (height img) password)))"
  by (simp add: encode_def assms Let_def split_beta)

lemma encode_success:
  assumes wf: "wf_image img" and perm: "truthy password \<longrightarrow> shuffle_permutes lib"
    and fr: "frame_bytes msg = Inr frame"
    and cap: "8 * (11 + length msg) \<le> 3 * width img * height img"
  shows "\<exists>stego. encode lib g img msg password =
             (Inr stego, snd (pixel_coords lib g (width img) (height img) password)) \<and>
           embed_pixels (bytes_to_bits frame)
             (fst (pixel_coords lib g (width img) (height img) password)) 0 img = Inr stego \<and>
           wf_image stego \<and> width stego = width img \<and> height stego = height img \<and>
           take (8 * (11 + length msg))
             (lsb_stream stego (fst (pixel_coords lib g (width img) (height img) password))) =
           bytes_to_bits frame"
proof -
  let ?cs = "fst (pixel_coords lib g (width img) (height img) password)"
  let ?bits = "bytes_to_bits frame"
  have lf: "length frame = 11 + length msg" using fr by (rule frame_bytes_length)
  have lb: "length ?bits = 8 * (11 + length msg)" by (simp add: length_bytes_to_bits lf)
  have lc: "length ?cs = width img * height img" by (rule pixel_coords_props'(1) [OF perm])
  from embed_pixels_success [OF pixel_coords_in_bounds [OF wf perm]]
  obtain stego where run: "embed_pixels ?bits ?cs 0 img = Inr stego" by blast
  have "\<not> width img * height img * 3 < length frame * 8" using cap lf by simp
  then have "encode lib g img msg password =
      (Inr stego, snd (pixel_coords lib g (width img) (height img) password))"
    by (simp add: encode_unfold [OF fr] run)
  moreover have "wf_image stego" using wf run by (rule wf_image_embed_pixels)
  moreover have "width stego = width img" "height stego = height img"
    using embed_pixels_shape [OF run] by simp_all
  moreover have "take (length ?bits) (lsb_stream stego ?cs) = ?bits"
  proof (rule embed_lsb_prefix [OF run])
    show "distinct ?cs" by (rule pixel_coords_props'(2) [OF perm])
    show "length ?bits \<le> 3 * length ?cs" using cap by (simp add: lb lc)
    show "\<forall>b\<in>set ?bits. b \<le> 1" using bytes_to_bits_le_1 by blast
  qed
  ultimately show ?thesis using run by (simp add: lb)
qed

section \<open>Decoding as a whole\<close>

lemma fst_decode_image:
  "fst (decode_image lib g img w h password) =
     (case decode_body lib img w h (fst (pixel_coords lib g w h password)) of
        Inl e \<Rightarrow> None
      | Inr result \<Rightarrow> result)"
  by (simp add: decode_image_def split_beta split: sum.split)

lemma decode_image_state_free:
  "fst (decode_image lib g1 img w h password) = fst (decode_image lib g2 img w h password)"
  by (simp only: fst_decode_image pixel_coords_state_free [of lib g1 w h password g2])

lemma fst_decode:
  "fst (decode lib g img password) =
     (if truthy (fst (decode_image lib g img (width img) (height img) password))
      then fst (decode_image lib g img (width img) (height img) password)
      else if truthy password \<and>
              truthy (fst (decode_image lib g img (width img) (height img) None))
           then fst (decode_image lib g img (width img) (height img) None)
           else None)"
proof -
  obtain r1 g1 where a1: "decode_image lib g img (width img) (height img) password = (r1, g1)"
    by (cases "decode_image lib g img (width img) (height img) password")
  obtain r2 g2 where a2: "decode_image lib g1 img (width img) (height img) None = (r2, g2)"
    by (cases "decode_image lib g1 img (width img) (height img) None")
  have r2: "fst (decode_image lib g img (width img) (height img) None) = r2"
    using decode_image_state_free [of lib g img "width img" "height img" None g1] a2 by simp
  show ?thesis
    by (simp add: decode_def Let_def a1 a2 r2)
qed

lemma decode_image_frame:
  assumes wf: "wf_image stego" and perm: "truthy password \<longrightarrow> shuffle_permutes lib"
    and fr: "frame_bytes msg = Inr frame"
    and cap: "8 * (11 + length msg) \<le> 3 * width stego * height stego"
    and bits: "take (8 * (11 + length msg))
                 (lsb_stream stego (fst (pixel_coords lib g (width stego) (height stego) password)))
               = bytes_to_bits frame"
  shows "fst (decode_image lib g stego (width stego) (height stego) password) =
           (if msg = [] then None
            else if utf8_valid lib msg then Some msg else Some (b64encode lib msg))"
proof -
  let ?cs = "fst (pixel_coords lib g (width stego) (height stego) password)"
  let ?packed = "[of_nat (length msg), of_nat (length msg div 256),
                  of_nat (length msg div 65536), of_nat (length msg div 16777216)] :: byte list"
  have len: "length msg < 2 ^ 32"
    using fr by (cases "length msg < 2 ^ 32") (simp_all add: frame_bytes_too_long)
  have frame: "frame = marker @ ?packed @ msg"
    using fr frame_bytes_eq [OF len] by simp
  have lc: "length ?cs = width stego * height stego" by (rule pixel_coords_props'(1) [OF perm])
  have "decode_body lib stego (width stego) (height stego) ?cs =
          Inr (if msg = [] \<or> width stego * height stego < length msg then None
               else if utf8_valid lib msg then Some msg else Some (b64encode lib msg))"
  proof (rule decode_body_frame [where packed = ?packed])
    show "\<forall>c\<in>set ?cs. in_bounds stego c" by (rule pixel_coords_in_bounds [OF wf perm])
    show "8 * (11 + length msg) \<le> 3 * length ?cs" using cap by (simp add: lc)
    show "length ?packed = 4" by simp
    show "struct_unpack_le32 ?packed = Inr (length msg)" by (rule struct_unpack_pack [OF len])
    show "take (8 * (11 + length msg)) (lsb_stream stego ?cs) = bytes_to_bits (marker @ ?packed @ msg)"
      using bits frame by simp
  qed
  moreover have "\<not> width stego * height stego < length msg" using cap by simp
  ultimately show ?thesis by (simp add: fst_decode_image)
qed

lemma encode_then_decode_image:
  assumes wf: "wf_image img" and perm: "truthy p \<longrightarrow> shuffle_permutes lib"
    and len: "length msg < 2 ^ 32"
    and cap: "8 * (11 + length msg) \<le> 3 * width img * height img"
  shows "\<exists>stego g'. encode lib g img msg p = (Inr stego, g') \<and> wf_image stego \<and>
           width stego = width img \<and> height stego = height img \<and>
           (\<forall>g''. fst (decode_image lib g'' stego (width stego) (height stego) p) =
              (if msg = [] then None
               else if utf8_valid lib msg then Some msg else Some (b64encode lib msg)))"
proof -
  from frame_bytes_eq [OF len] obtain frame where fr: "frame_bytes msg = Inr frame" by blast
  from encode_success [OF wf perm fr cap, of g]
  obtain stego where enc: "encode lib g img msg p =
        (Inr stego, snd (pixel_coords lib g (width img) (height img) p))"
    and wfs: "wf_image stego" and w: "width stego = width img" and h: "height stego = height img"
    and bits: "take (8 * (11 + length msg))
             (lsb_stream stego (fst (pixel_coords lib g (width img) (height img) p))) =
           bytes_to_bits frame"
    by blast
  have "fst (decode_image lib g'' stego (width stego) (height stego) p) =
          (if msg = [] then None
           else if utf8_valid lib msg then Some msg else Some (b64encode lib msg))" for g''
  proof (rule decode_image_frame [OF wfs perm fr])
    show "8 * (11 + length msg) \<le> 3 * width stego * height stego" using cap w h by simp
    show "take (8 * (11 + length msg))
            (lsb_stream stego (fst (pixel_coords lib g'' (width stego) (height stego) p))) =
          bytes_to_bits frame"
      using bits w h pixel_coords_state_free [of lib g'' "width img" "height img" p g] by simp
  qed
  with enc wfs w h show ?thesis by blast
qed

lemma truthy_iff: "truthy r \<longleftrightarrow> r \<noteq> None \<and> r \<noteq> Some []"
  by (cases r) simp_all

lemma decode_not_empty: "fst (decode lib g img password) \<noteq> Some []"
  by (simp add: fst_decode truthy_iff)

section \<open>Facts about the sample inputs\<close>

lemma wf_blank: "wf_image (blank w h)"
  by (simp add: wf_image_def blank_def list_all_iff)

lemma shape_blank: "width (blank w h) = w" "height (blank w h) = h"
  by (simp_all add: blank_def)

lemma sample_lib_permutes: "shuffle_permutes sample_lib"
  by (simp add: shuffle_permutes_def sample_lib_def)

lemma sample_lib_fields:
  "sha256 sample_lib bs = replicate 32 (of_nat (length bs))"
  "random_seed sample_lib s = s"
  "random_shuffle sample_lib g xs = (rev xs, Suc g)"
  "utf8_valid sample_lib bs = list_all (\<lambda>b. b < 128) bs"
  by (simp_all add: sample_lib_def)

lemma encode_too_long:
  "\<not> length msg < 2 ^ 32 \<Longrightarrow> encode lib g img msg p = (Inl StructError, g)"
  by (simp add: encode_def frame_bytes_too_long)

lemma encode_then_decode_too_long:
  "\<not> length msg < 2 ^ 32 \<Longrightarrow> encode_then_decode lib g img msg p q = Inl StructError"
  by (simp add: encode_then_decode_def encode_too_long)

lemma encode_then_decode_empty:
  assumes "wf_image img" and "88 \<le> 3 * width img * height img"
  shows "encode_then_decode lib g img [] None None = Inr None"
proof -
  from encode_then_decode_image [where img = img and p = None and msg = "[]" and lib = lib and g = g] assms
  obtain stego g' where enc: "encode lib g img [] None = (Inr stego, g')"
    and dec: "\<And>g''. fst (decode_image lib g'' stego (width stego) (height stego) None) = None"
    by auto
  have "fst (decode lib g' stego None) = None"
    by (simp add: fst_decode dec)
  then show ?thesis by (simp add: encode_then_decode_def enc)
qed

section \<open>Round trip\<close>

text \<open>
  C1, as stated: for every image with \<open>3 \<times> width \<times> height \<ge> 8 \<times> (11 + len(message_bytes))\<close>
  and every password \<open>p\<close>, decoding the encoded image with \<open>p\<close> returns the message.
  This fails for the empty message: the image holds the frame, \<^verbatim>\<open>encode\<close> writes it with
  length field 0, and \<^verbatim>\<open>_decode_image\<close> rejects a length that is \<open>\<le> 0\<close>, so \<^verbatim>\<open>decode\<close>
  returns \<^verbatim>\<open>None\<close>. It also fails for a message of \<open>2^32\<close> bytes or more, which
  \<^verbatim>\<open>struct.pack("<I", ...)\<close> refuses before anything is written.
\<close>

theorem roundtrip_counterexample:
  "8 * (11 + length ([] :: byte list)) \<le> 3 * width (blank 8 4) * height (blank 8 4) \<and>
   encode_then_decode sample_lib 0 (blank 8 4) [] None None = Inr None \<and>
   8 * (11 + length (replicate 4294967296 (97 :: byte)))
     \<le> 3 * width (blank 131072 131072) * height (blank 131072 131072) \<and>
   encode_then_decode sample_lib 0 (blank 131072 131072) (replicate 4294967296 97) None None
     = Inl StructError"
proof -
  have "encode_then_decode sample_lib 0 (blank 8 4) [] None None = Inr None"
    by (rule encode_then_decode_empty) (simp_all add: wf_blank shape_blank)
  moreover have "\<not> length (replicate 4294967296 (97 :: byte)) < 2 ^ 32"
    by (simp only: length_replicate) simp
  then have "encode_then_decode sample_lib 0 (blank 131072 131072)
               (replicate 4294967296 97) None None = Inl StructError"
    by (rule encode_then_decode_too_long)
  moreover have "8 * (11 + length (replicate 4294967296 (97 :: byte)))
      \<le> 3 * width (blank 131072 131072) * height (blank 131072 131072)"
    by (simp only: length_replicate shape_blank) simp
  moreover have "8 * (11 + length ([] :: byte list)) \<le> 3 * width (blank 8 4) * height (blank 8 4)"
    by (simp add: shape_blank)
  ultimately show ?thesis by (simp only: simp_thms)
qed

text \<open>
  C1, amended: for every image, every password \<open>p\<close> (absent or not) and every non-empty
  message of fewer than \<open>2^32\<close> bytes with
  \<open>3 \<times> width \<times> height \<ge> 8 \<times> (11 + len(message_bytes))\<close>, encoding succeeds and decoding the
  result with the same password returns the message. The message is a Python string, so
  its bytes are valid UTF-8; the shuffle of the library permutes its argument.
\<close>

theorem roundtrip_nonempty:
  assumes "wf_image img" and "shuffle_permutes lib" and "utf8_valid lib message"
    and "message \<noteq> []" and "length message < 2 ^ 32"
    and "3 * width img * height img \<ge> 8 * (11 + length message)"
  shows "encode_then_decode lib g img message p p = Inr (Some message)"
proof -
  from encode_then_decode_image [OF assms(1) _ assms(5) assms(6), where p = p and lib = lib and g = g] assms(2)
  obtain stego g' where enc: "encode lib g img message p = (Inr stego, g')"
    and dec: "\<And>g''. fst (decode_image lib g'' stego (width stego) (height stego) p) =
              (if message = [] then None
               else if utf8_valid lib message then Some message
                    else Some (b64encode lib message))"
    by blast
  have "fst (decode_image lib g' stego (width stego) (height stego) p) = Some message"
    using dec [of g'] assms(3,4) by simp
  then have "fst (decode lib g' stego p) = Some message"
    using assms(4) by (simp add: fst_decode)
  then show ?thesis by (simp add: encode_then_decode_def enc)
qed

theorem roundtrip_nonempty_witness:
  "wf_image (blank 10 10) \<and> shuffle_permutes sample_lib \<and>
   utf8_valid sample_lib [104, 105] \<and> [104, 105 :: byte] \<noteq> [] \<and>
   length [104, 105 :: byte] < 2 ^ 32 \<and>
   3 * width (blank 10 10) * height (blank 10 10) \<ge> 8 * (11 + length [104, 105 :: byte]) \<and>
   encode_then_decode sample_lib 0 (blank 10 10) [104, 105] (Some [107]) (Some [107])
     = Inr (Some [104, 105])"
proof -
  have h1: "wf_image (blank 10 10)" by (rule wf_blank)
  have h3: "utf8_valid sample_lib [104, 105]" by (simp add: sample_lib_fields)
  have h4: "[104, 105 :: byte] \<noteq> []" by simp
  have h5: "length [104, 105 :: byte] < 2 ^ 32" by simp
  have h6: "3 * width (blank 10 10) * height (blank 10 10) \<ge> 8 * (11 + length [104, 105 :: byte])"
    by (simp add: shape_blank)
  show ?thesis
    using h1 sample_lib_permutes h3 h4 h5 h6
      roundtrip_nonempty [OF h1 sample_lib_permutes h3 h4 h5 h6, of 0 "Some [107]"]
    by (simp only: simp_thms)
qed

section \<open>Pixel order: bijection, construction, determinism, empty password\<close>

lemma nth_raster_coords:
  assumes "x < w" and "y < h"
  shows "raster_coords w h ! (y * w + x) = (x, y)"
proof -
  have "y * w + x < w * h"
  proof -
    have "y * w + x < Suc y * w" using assms(1) by simp
    also have "\<dots> \<le> h * w" using assms(2) by (intro mult_le_mono1) simp
    finally show ?thesis by (simp add: mult.commute)
  qed
  then have "raster_coords w h ! (y * w + x) = ((y * w + x) mod w, (y * w + x) div w)"
    by (simp add: raster_coords_linear)
  then show ?thesis using assms(1) by simp
qed

lemma from_bytes_big_4:
  "from_bytes_big [d0, d1, d2, d3] =
     16777216 * unat d0 + 65536 * unat d1 + 256 * unat d2 + unat d3"
  by (simp add: from_bytes_big_def)

lemma from_bytes_big_bound: "from_bytes_big bs < 256 ^ length bs"
proof (induction bs rule: rev_induct)
  case Nil
  show ?case by (simp add: from_bytes_big_def)
next
  case (snoc b bs)
  have "unat b < 2 ^ LENGTH(8)" by (rule unsigned_less)
  then have "unat b < 256" by simp
  moreover have "from_bytes_big bs + 1 \<le> 256 ^ length bs" using snoc by simp
  then have "256 * (from_bytes_big bs + 1) \<le> 256 * 256 ^ length bs"
    by (rule mult_le_mono2)
  ultimately show ?case by (simp add: from_bytes_big_def)
qed

lemma password_seed_bound: "password_seed lib p < 2 ^ 32"
proof -
  have "password_seed lib p < 256 ^ length (take 4 (sha256 lib p))"
    unfolding password_seed_def by (rule from_bytes_big_bound)
  also have "\<dots> \<le> (256::nat) ^ 4"
    by (rule power_increasing) simp_all
  finally show ?thesis by simp
qed

text \<open>
  C6: for every width and height and every password (absent or not), the generated
  sequence has \<open>width \<times> height\<close> coordinates, no coordinate occurs twice, and the
  coordinates are exactly those of the grid, given that the library shuffle permutes
  its argument.
\<close>

theorem pixel_order_bijective:
  assumes "shuffle_permutes lib"
  shows "length (fst (pixel_coords lib g w h password)) = w * h \<and>
         distinct (fst (pixel_coords lib g w h password)) \<and>
         set (fst (pixel_coords lib g w h password)) = {0..<w} \<times> {0..<h}"
  using pixel_coords_props [OF assms] by simp

theorem pixel_order_bijective_witness:
  "shuffle_permutes sample_lib \<and>
   length (fst (pixel_coords sample_lib 0 3 2 (Some [107]))) = 3 * 2 \<and>
   distinct (fst (pixel_coords sample_lib 0 3 2 (Some [107]))) \<and>
   set (fst (pixel_coords sample_lib 0 3 2 (Some [107]))) = {0..<3} \<times> {0..<2}"
  using sample_lib_permutes
    pixel_order_bijective [OF sample_lib_permutes, of 0 3 2 "Some [107]"]
  by (simp only: simp_thms)

text \<open>
  C7: with no password (absent or empty) the sequence is the raster order, in which the
  coordinate \<open>(x, y)\<close> stands at position \<open>y \<times> width + x\<close>; with a password, the sequence
  is the shuffled list of linear indices, each index \<open>i\<close> turned into
  \<open>(i mod width, i div width)\<close>.
\<close>

theorem coordinate_construction:
  "fst (pixel_coords lib g w h None) = raster_coords w h \<and>
   fst (pixel_coords lib g w h (Some [])) = raster_coords w h \<and>
   length (raster_coords w h) = w * h \<and>
   (\<forall>y<h. \<forall>x<w. raster_coords w h ! (y * w + x) = (x, y)) \<and>
   fst (pixel_coords lib g w h (Some (c # cs))) =
     map (\<lambda>i. (i mod w, i div w))
       (fst (random_shuffle lib (random_seed lib (password_seed lib (c # cs))) [0..<w * h]))"
  by (simp add: pixel_coords_def raster_coords_props(1) nth_raster_coords
      shuffled_coords_def split_beta Let_def)

theorem coordinate_construction_witness:
  "(1::nat) < 2 \<and> (2::nat) < 3 \<and> raster_coords 3 2 ! (1 * 3 + 2) = (2, 1)"
proof -
  have a: "\<forall>y<2. \<forall>x<3. raster_coords 3 2 ! (y * 3 + x) = (x, y)"
    using coordinate_construction [of sample_lib 0 3 2 107 "[]"] by blast
  have b: "(1::nat) < 2" and c: "(2::nat) < 3" by simp_all
  from a b c have "raster_coords 3 2 ! (1 * 3 + 2) = (2, 1)" by blast
  with b c show ?thesis by (simp only: simp_thms)
qed

text \<open>
  C5: the sequence does not depend on the state in which the module-level generator is
  found, so two invocations with the same width, height and password give the same
  sequence. With a password the sequence, and the state the generator is left in, are a
  function of the seed alone; the seed is the big-endian value of the first four bytes of
  the digest of the password bytes and lies below \<open>2^32\<close>.
\<close>

theorem pixel_order_deterministic:
  "fst (pixel_coords lib g1 w h password) = fst (pixel_coords lib g2 w h password) \<and>
   pixel_coords lib g1 w h (Some (c # cs)) =
     shuffled_coords lib (from_bytes_big (take 4 (sha256 lib (c # cs)))) w h \<and>
   from_bytes_big (take 4 (sha256 lib (c # cs))) < 2 ^ 32 \<and>
   (length (sha256 lib (c # cs)) = 32 \<longrightarrow>
      from_bytes_big (take 4 (sha256 lib (c # cs))) =
        16777216 * unat (sha256 lib (c # cs) ! 0) + 65536 * unat (sha256 lib (c # cs) ! 1)
        + 256 * unat (sha256 lib (c # cs) ! 2) + unat (sha256 lib (c # cs) ! 3))"
proof -
  have "from_bytes_big (take 4 d) =
        16777216 * unat (d ! 0) + 65536 * unat (d ! 1) + 256 * unat (d ! 2) + unat (d ! 3)"
    if "length d = 32" for d :: "byte list"
  proof -
    from that have "take 4 d = [d ! 0, d ! 1, d ! 2, d ! 3]"
      by (simp add: numeral_eq_Suc take_Suc_conv_app_nth)
    then show ?thesis by (simp only: from_bytes_big_4)
  qed
  moreover have "from_bytes_big (take 4 (sha256 lib (c # cs))) < 2 ^ 32"
    using password_seed_bound [of lib "c # cs"] by (simp add: password_seed_def)
  ultimately show ?thesis
    using pixel_coords_state_free [of lib g1 w h password g2]
    by (simp add: pixel_coords_def password_seed_def)
qed

theorem pixel_order_deterministic_witness:
  "length (sha256 sample_lib [107]) = 32 \<and>
   from_bytes_big (take 4 (sha256 sample_lib [107])) =
        16777216 * unat (sha256 sample_lib [107] ! 0) + 65536 * unat (sha256 sample_lib [107] ! 1)
        + 256 * unat (sha256 sample_lib [107] ! 2) + unat (sha256 sample_lib [107] ! 3)"
proof -
  have h: "length (sha256 sample_lib [107]) = 32" by (simp add: sample_lib_fields)
  show ?thesis
    using h pixel_order_deterministic [of sample_lib 0 1 1 None 0 107 "[]"] by blast
qed

text \<open>
  C10: the empty string is a falsy password. \<^verbatim>\<open>encode\<close> with \<^verbatim>\<open>""\<close> returns what it
  returns with \<^verbatim>\<open>None\<close>, in raster order and without touching the generator;
  \<^verbatim>\<open>decode\<close> with \<^verbatim>\<open>""\<close> returns what it returns with \<^verbatim>\<open>None\<close>, which is the result of
  the single attempt in raster order (or \<^verbatim>\<open>None\<close> when that result is falsy).
\<close>

theorem empty_password_is_no_password:
  "encode lib g img message (Some []) = encode lib g img message None \<and>
   pixel_coords lib g w h (Some []) = (raster_coords w h, g) \<and>
   decode_image lib g img w h (Some []) = decode_image lib g img w h None \<and>
   decode lib g img (Some []) = decode lib g img None \<and>
   decode lib g img (Some []) =
     (if truthy (fst (decode_image lib g img (width img) (height img) None))
      then fst (decode_image lib g img (width img) (height img) None) else None,
      snd (decode_image lib g img (width img) (height img) None))"
proof -
  have pc: "pixel_coords lib g w h (Some []) = pixel_coords lib g w h None" for g w h
    by (simp add: pixel_coords_def)
  have di: "decode_image lib g img w h (Some []) = decode_image lib g img w h None" for g w h
    by (simp add: decode_image_def pc)
  have "encode lib g img message (Some []) = encode lib g img message None"
    unfolding encode_def pc by (rule refl)
  moreover have "decode lib g img (Some []) = decode lib g img None"
    by (simp add: decode_def di Let_def split_beta)
  moreover have "decode lib g img None =
     (if truthy (fst (decode_image lib g img (width img) (height img) None))
      then fst (decode_image lib g img (width img) (height img) None) else None,
      snd (decode_image lib g img (width img) (height img) None))"
    by (simp add: decode_def Let_def split_beta)
  ultimately show ?thesis
    using di by (simp add: pixel_coords_def)
qed

section \<open>Capacity check\<close>

lemma marker_bytes: "marker = [83, 83, 83, 84, 69, 71, 79]"
  by (simp add: marker_def)

lemma encode_capacity_error:
  assumes "length msg < 2 ^ 32" and "3 * width img * height img < 8 * (7 + 4 + length msg)"
  shows "encode lib g img msg password =
           (Inl (CapacityError (8 * (7 + 4 + length msg)) (3 * width img * height img)), g)"
proof -
  from frame_bytes_eq [OF assms(1)] obtain frame where fr: "frame_bytes msg = Inr frame" by blast
  have lf: "length frame * 8 = 8 * (7 + 4 + length msg)"
    using frame_bytes_length [OF fr] by simp
  have av: "width img * height img * 3 = 3 * width img * height img" by simp
  show ?thesis
    unfolding encode_unfold [OF fr] lf av using assms(2) by simp
qed

lemma encode_no_capacity_error:
  assumes "length msg < 2 ^ 32" and "\<not> 3 * width img * height img < 8 * (7 + 4 + length msg)"
  shows "fst (encode lib g img msg password) \<noteq> Inl (CapacityError r a)"
proof -
  from frame_bytes_eq [OF assms(1)] obtain frame where fr: "frame_bytes msg = Inr frame" by blast
  have lf: "length frame * 8 = 8 * (7 + 4 + length msg)"
    using frame_bytes_length [OF fr] by simp
  have av: "width img * height img * 3 = 3 * width img * height img" by simp
  have "fst (encode lib g img msg password) =
          embed_pixels (bytes_to_bits frame)
            (fst (pixel_coords lib g (width img) (height img) password)) 0 img"
    unfolding encode_unfold [OF fr] lf av using assms(2) by simp
  then show ?thesis
    using embed_pixels_error [of "bytes_to_bits frame" _ 0 img "CapacityError r a"] by auto
qed

text \<open>
  C2, as stated: \<^verbatim>\<open>encode\<close> fails with a CapacityError exactly when
  \<open>8 \<times> (7 + 4 + len(message_bytes)) > 3 \<times> width \<times> height\<close>. The frame is built before the
  check, and \<^verbatim>\<open>struct.pack("<I", len(message_data))\<close> raises \<^verbatim>\<open>struct.error\<close> for a
  message of \<open>2^32\<close> bytes or more: such a message on a one-pixel image needs more bits than
  the image holds, and the failure is not the capacity error.
\<close>

theorem capacity_check_counterexample:
  "3 * width (blank 1 1) * height (blank 1 1)
     < 8 * (7 + 4 + length (replicate 4294967296 (97 :: byte))) \<and>
   fst (encode sample_lib 0 (blank 1 1) (replicate 4294967296 97) None) = Inl StructError"
proof -
  have "\<not> length (replicate 4294967296 (97 :: byte)) < 2 ^ 32"
    by (simp only: length_replicate) simp
  then have "encode sample_lib 0 (blank 1 1) (replicate 4294967296 97) None = (Inl StructError, 0)"
    by (rule encode_too_long)
  moreover have "3 * width (blank 1 1) * height (blank 1 1)
     < 8 * (7 + 4 + length (replicate 4294967296 (97 :: byte)))"
    by (simp only: length_replicate shape_blank) simp
  ultimately show ?thesis by (simp only: fst_conv simp_thms)
qed

text \<open>
  C2, amended: for a message of fewer than \<open>2^32\<close> bytes, \<^verbatim>\<open>encode\<close> fails with the
  capacity error exactly when \<open>8 \<times> (7 + 4 + len(message_bytes)) > 3 \<times> width \<times> height\<close>; the
  error carries the required and the available bit counts; the failure returns no array
  and leaves the generator state as it was, the check coming before the pixel order is
  generated and before the copy is written to; and a message that needs exactly
  \<open>3 \<times> width \<times> height\<close> bits is encoded.
\<close>

theorem capacity_check:
  assumes "length message < 2 ^ 32"
  shows "((\<exists>r a. fst (encode lib g img message password) = Inl (CapacityError r a))
            \<longleftrightarrow> 8 * (7 + 4 + length message) > 3 * width img * height img) \<and>
         (8 * (7 + 4 + length message) > 3 * width img * height img \<longrightarrow>
            encode lib g img message password =
              (Inl (CapacityError (8 * (7 + 4 + length message)) (3 * width img * height img)), g)) \<and>
         (wf_image img \<and> shuffle_permutes lib \<and>
          8 * (7 + 4 + length message) = 3 * width img * height img \<longrightarrow>
            (\<exists>stego. fst (encode lib g img message password) = Inr stego \<and> wf_image stego))"
proof (intro conjI impI)
  show "(\<exists>r a. fst (encode lib g img message password) = Inl (CapacityError r a))
            \<longleftrightarrow> 8 * (7 + 4 + length message) > 3 * width img * height img"
  proof (cases "3 * width img * height img < 8 * (7 + 4 + length message)")
    case True
    from encode_capacity_error [OF assms True, of lib g password] True show ?thesis by simp
  next
    case False
    from encode_no_capacity_error [OF assms False, of lib g password] False show ?thesis by simp
  qed
next
  assume "8 * (7 + 4 + length message) > 3 * width img * height img"
  then show "encode lib g img message password =
      (Inl (CapacityError (8 * (7 + 4 + length message)) (3 * width img * height img)), g)"
    by (rule encode_capacity_error [OF assms])
next
  assume a: "wf_image img \<and> shuffle_permutes lib \<and>
          8 * (7 + 4 + length message) = 3 * width img * height img"
  from frame_bytes_eq [OF assms] obtain frame where fr: "frame_bytes message = Inr frame" by blast
  from a have "8 * (11 + length message) \<le> 3 * width img * height img" by simp
  from encode_success [OF _ _ fr this, where lib = lib and password = password and g = g] a
  show "\<exists>stego. fst (encode lib g img message password) = Inr stego \<and> wf_image stego"
    by auto
qed

theorem capacity_check_witness:
  "length [104, 105 :: byte] < 2 ^ 32 \<and>
   8 * (7 + 4 + length [104, 105 :: byte]) > 3 * width (blank 2 2) * height (blank 2 2) \<and>
   encode sample_lib 0 (blank 2 2) [104, 105] (Some [107]) = (Inl (CapacityError 104 12), 0) \<and>
   length [104 :: byte] < 2 ^ 32 \<and> wf_image (blank 8 4) \<and> shuffle_permutes sample_lib \<and>
   8 * (7 + 4 + length [104 :: byte]) = 3 * width (blank 8 4) * height (blank 8 4) \<and>
   (\<exists>stego. fst (encode sample_lib 0 (blank 8 4) [104] (Some [107])) = Inr stego \<and> wf_image stego)"
proof -
  have a1: "length [104, 105 :: byte] < 2 ^ 32" by simp
  have a2: "8 * (7 + 4 + length [104, 105 :: byte]) > 3 * width (blank 2 2) * height (blank 2 2)"
    by (simp add: shape_blank)
  have b1: "length [104 :: byte] < 2 ^ 32" by simp
  have b2: "8 * (7 + 4 + length [104 :: byte]) = 3 * width (blank 8 4) * height (blank 8 4)"
    by (simp add: shape_blank)
  from capacity_check [OF a1, of sample_lib 0 "blank 2 2" "Some [107]"] a2
  have "encode sample_lib 0 (blank 2 2) [104, 105] (Some [107]) =
      (Inl (CapacityError (8 * (7 + 4 + length [104, 105 :: byte]))
         (3 * width (blank 2 2) * height (blank 2 2))), 0)"
    by blast
  then have c1: "encode sample_lib 0 (blank 2 2) [104, 105] (Some [107]) =
      (Inl (CapacityError 104 12), 0)"
    by (simp add: shape_blank)
  from capacity_check [OF b1, of sample_lib 0 "blank 8 4" "Some [107]"] b2 wf_blank [of 8 4]
    sample_lib_permutes
  have c2: "\<exists>stego. fst (encode sample_lib 0 (blank 8 4) [104] (Some [107])) = Inr stego \<and>
      wf_image stego"
    by blast
  from a1 a2 c1 b1 b2 c2 wf_blank [of 8 4] sample_lib_permutes show ?thesis
    by (simp only: simp_thms)
qed

section \<open>Frame format\<close>

lemma encode_Inr_frame:
  assumes "fst (encode lib g img msg password) = Inr stego"
  obtains frame where "frame_bytes msg = Inr frame"
    and "8 * (11 + length msg) \<le> 3 * width img * height img"
    and "embed_pixels (bytes_to_bits frame)
           (fst (pixel_coords lib g (width img) (height img) password)) 0 img = Inr stego"
proof -
  have len: "length msg < 2 ^ 32"
    using assms by (cases "length msg < 2 ^ 32") (simp_all add: encode_too_long)
  from frame_bytes_eq [OF len] obtain frame where fr: "frame_bytes msg = Inr frame" by blast
  have lf: "length frame = 11 + length msg" using fr by (rule frame_bytes_length)
  have cap: "\<not> width img * height img * 3 < length frame * 8"
    using assms by (cases "width img * height img * 3 < length frame * 8")
      (simp_all add: encode_unfold [OF fr])
  then have "embed_pixels (bytes_to_bits frame)
           (fst (pixel_coords lib g (width img) (height img) password)) 0 img = Inr stego"
    using assms by (simp add: encode_unfold [OF fr])
  moreover have "8 * (11 + length msg) \<le> 3 * width img * height img"
    using cap lf by simp
  ultimately show ?thesis using fr that by blast
qed

lemma same_high_bits_refl: "same_high_bits p p"
  by (cases p) (simp add: same_high_bits_def)

lemma same_high_bits_embed: "same_high_bits p (embed_pixel bits i p)"
  using embed_high
  by (cases p) (simp add: same_high_bits_def embed_pixel_def embed_channel_def)

text \<open>
  C8: the marker is the seven ASCII bytes of \<^verbatim>\<open>SSSTEGO\<close>; for a message that
  \<^verbatim>\<open>struct.pack\<close> accepts, the frame is the marker, then four bytes of which byte \<open>k\<close>
  is the length shifted right by \<open>8 \<times> k\<close> bits (so that they read back, little-endian, as
  the length), then the message bytes; the bit list has eight bits per byte, bit \<open>j\<close> of
  byte \<open>k\<close> at position \<open>8 \<times> k + j\<close>; and these are the bits that a successful
  \<^verbatim>\<open>encode\<close> leaves in the low bits of the channels along the pixel order.
\<close>

theorem frame_wire_format:
  "marker = [83, 83, 83, 84, 69, 71, 79] \<and>
   (length message < 2 ^ 32 \<longrightarrow>
      (\<exists>packed. frame_bytes message = Inr (marker @ packed @ message) \<and> length packed = 4 \<and>
         (\<forall>k<4. packed ! k = of_nat (length message div 256 ^ k)) \<and>
         struct_unpack_le32 packed = Inr (length message))) \<and>
   length (bytes_to_bits bs) = 8 * length bs \<and>
   (\<forall>k<length bs. \<forall>j<8. bytes_to_bits bs ! (8 * k + j) = (if bit (bs ! k) j then 1 else 0)) \<and>
   (wf_image img \<and> shuffle_permutes lib \<and> fst (encode lib g img message password) = Inr stego
      \<longrightarrow> (\<exists>frame. frame_bytes message = Inr frame \<and>
             take (8 * length frame)
               (lsb_stream stego (fst (pixel_coords lib g (width img) (height img) password)))
             = bytes_to_bits frame))"
proof (intro conjI impI allI)
  show "marker = [83, 83, 83, 84, 69, 71, 79]" by (rule marker_bytes)
next
  assume len: "length message < 2 ^ 32"
  let ?n = "length message"
  let ?packed = "[of_nat ?n, of_nat (?n div 256), of_nat (?n div 65536),
                  of_nat (?n div 16777216)] :: byte list"
  have "\<forall>k<4. ?packed ! k = of_nat (?n div 256 ^ k)"
  proof (intro allI impI)
    fix k :: nat assume "k < 4"
    then consider "k = 0" | "k = 1" | "k = 2" | "k = 3" by linarith
    then show "?packed ! k = of_nat (?n div 256 ^ k)"
      by cases simp_all
  qed
  then show "\<exists>packed. frame_bytes message = Inr (marker @ packed @ message) \<and> length packed = 4 \<and>
         (\<forall>k<4. packed ! k = of_nat (length message div 256 ^ k)) \<and>
         struct_unpack_le32 packed = Inr (length message)"
    using frame_bytes_eq [OF len] struct_unpack_pack [OF len]
    by (intro exI [of _ ?packed]) simp
next
  show "length (bytes_to_bits bs) = 8 * length bs" by (rule length_bytes_to_bits)
next
  fix k j :: nat assume "k < length bs" "j < 8"
  then show "bytes_to_bits bs ! (8 * k + j) = (if bit (bs ! k) j then 1 else 0)"
    by (rule nth_bytes_to_bits)
next
  assume a: "wf_image img \<and> shuffle_permutes lib \<and>
     fst (encode lib g img message password) = Inr stego"
  then have enc: "fst (encode lib g img message password) = Inr stego" by simp
  from enc obtain frame where fr: "frame_bytes message = Inr frame"
    and cap: "8 * (11 + length message) \<le> 3 * width img * height img"
    by (rule encode_Inr_frame)
  from encode_success [OF _ _ fr cap, where lib = lib and password = password and g = g] a
  obtain stego' where "encode lib g img message password =
        (Inr stego', snd (pixel_coords lib g (width img) (height img) password))"
    and "take (8 * (11 + length message))
           (lsb_stream stego' (fst (pixel_coords lib g (width img) (height img) password))) =
         bytes_to_bits frame"
    by auto
  with enc frame_bytes_length [OF fr] fr
  show "\<exists>frame. frame_bytes message = Inr frame \<and>
             take (8 * length frame)
               (lsb_stream stego (fst (pixel_coords lib g (width img) (height img) password)))
             = bytes_to_bits frame"
    by auto
qed

theorem frame_wire_format_witness:
  "length [104, 105 :: byte] < 2 ^ 32 \<and>
   (\<exists>packed. frame_bytes [104, 105] = Inr (marker @ packed @ [104, 105]) \<and> length packed = 4 \<and>
         (\<forall>k<4. packed ! k = of_nat (length [104, 105 :: byte] div 256 ^ k)) \<and>
         struct_unpack_le32 packed = Inr (length [104, 105 :: byte])) \<and>
   bytes_to_bits [5] ! (8 * 0 + 0) = 1 \<and>
   wf_image (blank 10 10) \<and> shuffle_permutes sample_lib \<and>
   (\<exists>stego frame. fst (encode sample_lib 0 (blank 10 10) [104, 105] (Some [107])) = Inr stego \<and>
      frame_bytes [104, 105] = Inr frame \<and>
      take (8 * length frame)
        (lsb_stream stego (fst (pixel_coords sample_lib 0 (width (blank 10 10))
           (height (blank 10 10)) (Some [107]))))
      = bytes_to_bits frame)"
proof -
  have len: "length [104, 105 :: byte] < 2 ^ 32" by simp
  from frame_bytes_eq [OF len] obtain frame where fr: "frame_bytes [104, 105] = Inr frame"
    by blast
  have cap: "8 * (11 + length [104, 105 :: byte]) \<le> 3 * width (blank 10 10) * height (blank 10 10)"
    by (simp add: shape_blank)
  from encode_success [OF wf_blank _ fr cap, where lib = sample_lib and password = "Some [107]"
      and g = 0] sample_lib_permutes
  obtain stego where enc: "fst (encode sample_lib 0 (blank 10 10) [104, 105] (Some [107])) = Inr stego"
    by auto
  note t = frame_wire_format [where message = "[104, 105]" and bs = "[5]" and img = "blank 10 10"
      and lib = sample_lib and g = 0 and password = "Some [107]" and stego = stego]
  have p1: "\<exists>packed. frame_bytes [104, 105] = Inr (marker @ packed @ [104, 105]) \<and> length packed = 4 \<and>
         (\<forall>k<4. packed ! k = of_nat (length [104, 105 :: byte] div 256 ^ k)) \<and>
         struct_unpack_le32 packed = Inr (length [104, 105 :: byte])"
    using t len by blast
  have "\<forall>k<length [5 :: byte]. \<forall>j<8. bytes_to_bits [5] ! (8 * k + j) = (if bit ([5 :: byte] ! k) j then 1 else 0)"
    using t by blast
  then have "bytes_to_bits [5] ! (8 * 0 + 0) = (if bit ([5 :: byte] ! 0) 0 then 1 else 0)"
    by simp
  then have p2: "bytes_to_bits [5] ! (8 * 0 + 0) = 1"
    by (simp add: bit_0)
  have p3: "\<exists>frame. frame_bytes [104, 105] = Inr frame \<and>
      take (8 * length frame)
        (lsb_stream stego (fst (pixel_coords sample_lib 0 (width (blank 10 10))
           (height (blank 10 10)) (Some [107]))))
      = bytes_to_bits frame"
    using t wf_blank [of 10 10] sample_lib_permutes enc by blast
  from len p1 p2 p3 enc wf_blank [of 10 10] sample_lib_permutes show ?thesis
    by blast
qed

section \<open>Effect of encoding on the pixels\<close>

text \<open>
  C9: when \<^verbatim>\<open>encode\<close> succeeds, the pixel at position \<open>k\<close> of the pixel order takes the
  bits \<open>3k\<close>, \<open>3k + 1\<close>, \<open>3k + 2\<close> of the frame in its red, green and blue channel, each
  channel only as long as a bit with that index exists and unchanged otherwise; a
  coordinate that is not at a position \<open>k\<close> with \<open>3k\<close> below the number of bits keeps its
  pixel; every pixel keeps the seven high bits of every channel, since
  \<^verbatim>\<open>_embed_bit\<close> replaces the low bit and nothing else; the shape is unchanged.
\<close>

theorem encode_frame_effect:
  assumes "wf_image img" and "shuffle_permutes lib"
    and "fst (encode lib g img message password) = Inr stego"
  shows "\<exists>frame. frame_bytes message = Inr frame \<and>
           width stego = width img \<and> height stego = height img \<and> wf_image stego \<and>
           (\<forall>k<length (fst (pixel_coords lib g (width img) (height img) password)).
              pixel_at stego (fst (pixel_coords lib g (width img) (height img) password) ! k) =
                embed_pixel (bytes_to_bits frame) (3 * k)
                  (pixel_at img (fst (pixel_coords lib g (width img) (height img) password) ! k))) \<and>
           (\<forall>c. (\<forall>k<length (fst (pixel_coords lib g (width img) (height img) password)).
                    3 * k < length (bytes_to_bits frame) \<longrightarrow>
                    fst (pixel_coords lib g (width img) (height img) password) ! k \<noteq> c) \<longrightarrow>
                pixel_at stego c = pixel_at img c) \<and>
           (\<forall>c. same_high_bits (pixel_at img c) (pixel_at stego c)) \<and>
           (\<forall>v b. drop_bit 1 (embed_bit v b) = drop_bit 1 v \<and>
                  extract_bit (embed_bit v b) = b mod 2)"
proof -
  let ?cs = "fst (pixel_coords lib g (width img) (height img) password)"
  from assms(3) obtain frame where fr: "frame_bytes message = Inr frame"
    and run: "embed_pixels (bytes_to_bits frame) ?cs 0 img = Inr stego"
    by (rule encode_Inr_frame)
  let ?bits = "bytes_to_bits frame"
  have dist: "distinct ?cs" using pixel_coords_props(2) [OF assms(2)] .
  have shape: "width stego = width img" "height stego = height img"
    using embed_pixels_shape [OF run] by simp_all
  have wf: "wf_image stego" using assms(1) run by (rule wf_image_embed_pixels)
  have visited: "pixel_at stego (?cs ! k) = embed_pixel ?bits (3 * k) (pixel_at img (?cs ! k))"
    if "k < length ?cs" for k
    using embed_pixels_visited [OF run dist that] by simp
  have untouched: "pixel_at stego c = pixel_at img c"
    if "\<forall>k<length ?cs. 3 * k < length ?bits \<longrightarrow> ?cs ! k \<noteq> c" for c
  proof (cases "c \<in> set ?cs")
    case False
    with run show ?thesis by (rule embed_pixels_unvisited)
  next
    case True
    then obtain k where k: "k < length ?cs" and c: "?cs ! k = c"
      by (auto simp add: in_set_conv_nth)
    with that have "length ?bits \<le> 3 * k" by auto
    then have "embed_pixel ?bits (3 * k) (pixel_at img c) = pixel_at img c"
      by (rule embed_pixel_past_end)
    with visited [OF k] c show ?thesis by simp
  qed
  have high: "same_high_bits (pixel_at img c) (pixel_at stego c)" for c
  proof (cases "c \<in> set ?cs")
    case False
    with run have "pixel_at stego c = pixel_at img c" by (rule embed_pixels_unvisited)
    then show ?thesis by (simp add: same_high_bits_refl)
  next
    case True
    then obtain k where k: "k < length ?cs" and c: "?cs ! k = c"
      by (auto simp add: in_set_conv_nth)
    with visited [OF k] show ?thesis by (simp add: same_high_bits_embed)
  qed
  have bitfacts: "\<forall>v b. drop_bit 1 (embed_bit v b) = drop_bit 1 v \<and>
                  extract_bit (embed_bit v b) = b mod 2"
    using embed_high extract_embed by blast
  show ?thesis
    using fr shape wf visited untouched high bitfacts by blast
qed

theorem encode_frame_effect_witness:
  "wf_image (blank 10 10) \<and> shuffle_permutes sample_lib \<and>
   (\<exists>stego frame.
      fst (encode sample_lib 0 (blank 10 10) [104, 105] (Some [107])) = Inr stego \<and>
      frame_bytes [104, 105] = Inr frame \<and> wf_image stego \<and>
      (0 < length (fst (pixel_coords sample_lib 0 (width (blank 10 10)) (height (blank 10 10))
                    (Some [107]))) \<longrightarrow>
       pixel_at stego
         (fst (pixel_coords sample_lib 0 (width (blank 10 10)) (height (blank 10 10))
               (Some [107])) ! 0) =
       embed_pixel (bytes_to_bits frame) (3 * 0)
         (pixel_at (blank 10 10)
            (fst (pixel_coords sample_lib 0 (width (blank 10 10)) (height (blank 10 10))
                  (Some [107])) ! 0))) \<and>
      same_high_bits (pixel_at (blank 10 10) (0, 0)) (pixel_at stego (0, 0)))"
proof -
  have len: "length [104, 105 :: byte] < 2 ^ 32" by simp
  from frame_bytes_eq [OF len] obtain frame where fr: "frame_bytes [104, 105] = Inr frame"
    by blast
  have cap: "8 * (11 + length [104, 105 :: byte]) \<le> 3 * width (blank 10 10) * height (blank 10 10)"
    by (simp add: shape_blank)
  from encode_success [OF wf_blank _ fr cap, where lib = sample_lib and password = "Some [107]"
      and g = 0] sample_lib_permutes
  obtain stego where enc: "fst (encode sample_lib 0 (blank 10 10) [104, 105] (Some [107])) = Inr stego"
    by auto
  from encode_frame_effect [OF wf_blank sample_lib_permutes enc] enc
    wf_blank [of 10 10] sample_lib_permutes
  show ?thesis by blast
qed

section \<open>Negative results of decoding\<close>

lemma recovered_header_Inr:
  "recovered_header img cs = Inr hb \<longleftrightarrow>
     (\<exists>ex. scan_bits img cs 88 [] = Inr ex \<and> hb = bits_to_bytes ex 88)"
  by (auto simp add: recovered_header_def split: sum.splits)

lemma decode_body_no_marker:
  assumes "recovered_header img cs = Inr hb" and "take 7 hb \<noteq> marker"
  shows "decode_body lib img w h cs = Inr None"
proof -
  from assms(1) obtain ex where "scan_bits img cs 88 [] = Inr ex" "hb = bits_to_bytes ex 88"
    by (auto simp add: recovered_header_Inr)
  with assms(2) show ?thesis by (simp add: decode_body_unfold)
qed

lemma decode_body_bad_length:
  assumes "recovered_header img cs = Inr hb"
    and "struct_unpack_le32 (take 4 (drop 7 hb)) = Inr n" and "n = 0 \<or> w * h < n"
  shows "decode_body lib img w h cs = Inr None"
proof -
  from assms(1) obtain ex where "scan_bits img cs 88 [] = Inr ex" "hb = bits_to_bytes ex 88"
    by (auto simp add: recovered_header_Inr)
  with assms(2,3) show ?thesis by (auto simp add: decode_body_unfold)
qed

lemma read_all_bound:
  assumes "scan_bits img cs n1 [] = Inr ex"
    and "(if length ex < n2 then scan_bits img (drop (length ex div 3) cs) n2 ex else Inr ex)
           = Inr ex2"
  shows "length ex2 \<le> 3 * length cs"
proof -
  from scan_bits_length [OF assms(1)] obtain k1 where k1: "k1 \<le> length cs"
    and l1: "length ex = 3 * k1" by auto
  show ?thesis
  proof (cases "length ex < n2")
    case False
    with assms(2) k1 l1 show ?thesis by simp
  next
    case True
    with assms(2) l1 have "scan_bits img (drop k1 cs) n2 ex = Inr ex2" by simp
    from scan_bits_length [OF this] obtain k2 where "k2 \<le> length (drop k1 cs)"
      and "length ex2 = length ex + 3 * k2" by auto
    with k1 l1 show ?thesis by simp
  qed
qed

lemma decode_body_truncated:
  assumes "recovered_header img cs = Inr hb"
    and "struct_unpack_le32 (take 4 (drop 7 hb)) = Inr n"
    and "3 * length cs < 8 * (11 + n)"
  shows "decode_body lib img w h cs = Inr None \<or> (\<exists>e. decode_body lib img w h cs = Inl e)"
proof -
  from assms(1) obtain ex where s1: "scan_bits img cs 88 [] = Inr ex"
    and hb: "hb = bits_to_bytes ex 88"
    by (auto simp add: recovered_header_Inr)
  let ?second = "if length ex < 8 * (11 + n)
                 then scan_bits img (drop (length ex div 3) cs) (8 * (11 + n)) ex
                 else Inr ex"
  show ?thesis
  proof (cases ?second)
    case (Inl e)
    with s1 hb assms(2) show ?thesis
      by (auto simp add: decode_body_unfold)
  next
    case (Inr ex2)
    from read_all_bound [OF s1 Inr] assms(3) have "length ex2 < 8 * (11 + n)" by simp
    then have "length ex2 div 8 < 11 + n" by simp
    with length_bits_to_bytes_le [of ex2 "8 * (11 + n)"]
    have short: "\<not> 11 + n \<le> length (bits_to_bytes ex2 (8 * (11 + n)))" by simp
    from s1 hb assms(2) Inr short show ?thesis
      by (auto simp add: decode_body_unfold)
  qed
qed

text \<open>
  C3: \<^verbatim>\<open>_decode_image\<close> and \<^verbatim>\<open>decode\<close> return for every array and password, and an
  exception inside the attempt becomes the absent result. With \<open>hb\<close> the header bytes
  recovered along the pixel order, the attempt is absent when the first seven bytes of
  \<open>hb\<close> are not the marker, when the length parsed from the next four bytes is zero or
  above \<open>w \<times> h\<close>, and when that length declares a frame of more bits than the three bits
  per listed pixel can give.
\<close>

theorem decode_negative_results:
  "(decode_body lib img w h (fst (pixel_coords lib g w h password)) = Inl e \<longrightarrow>
      fst (decode_image lib g img w h password) = None) \<and>
   (recovered_header img (fst (pixel_coords lib g w h password)) = Inr hb \<and>
    take 7 hb \<noteq> marker \<longrightarrow>
      fst (decode_image lib g img w h password) = None) \<and>
   (recovered_header img (fst (pixel_coords lib g w h password)) = Inr hb \<and>
    struct_unpack_le32 (take 4 (drop 7 hb)) = Inr n \<and> (n = 0 \<or> n > w * h) \<longrightarrow>
      fst (decode_image lib g img w h password) = None) \<and>
   (recovered_header img (fst (pixel_coords lib g w h password)) = Inr hb \<and>
    struct_unpack_le32 (take 4 (drop 7 hb)) = Inr n \<and>
    3 * length (fst (pixel_coords lib g w h password)) < 8 * (11 + n) \<longrightarrow>
      fst (decode_image lib g img w h password) = None) \<and>
   (fst (decode_image lib g img (width img) (height img) password) = None \<and>
    fst (decode_image lib g img (width img) (height img) None) = None \<longrightarrow>
      fst (decode lib g img password) = None)"
proof (intro conjI impI)
  assume "decode_body lib img w h (fst (pixel_coords lib g w h password)) = Inl e"
  then show "fst (decode_image lib g img w h password) = None"
    by (simp add: fst_decode_image)
next
  assume "recovered_header img (fst (pixel_coords lib g w h password)) = Inr hb \<and>
    take 7 hb \<noteq> marker"
  then have "decode_body lib img w h (fst (pixel_coords lib g w h password)) = Inr None"
    by (intro decode_body_no_marker [where hb = hb]) simp_all
  then show "fst (decode_image lib g img w h password) = None"
    by (simp add: fst_decode_image)
next
  assume "recovered_header img (fst (pixel_coords lib g w h password)) = Inr hb \<and>
    struct_unpack_le32 (take 4 (drop 7 hb)) = Inr n \<and> (n = 0 \<or> n > w * h)"
  then have "decode_body lib img w h (fst (pixel_coords lib g w h password)) = Inr None"
    by (intro decode_body_bad_length [where hb = hb and n = n]) simp_all
  then show "fst (decode_image lib g img w h password) = None"
    by (simp add: fst_decode_image)
next
  assume "recovered_header img (fst (pixel_coords lib g w h password)) = Inr hb \<and>
    struct_unpack_le32 (take 4 (drop 7 hb)) = Inr n \<and>
    3 * length (fst (pixel_coords lib g w h password)) < 8 * (11 + n)"
  then have "decode_body lib img w h (fst (pixel_coords lib g w h password)) = Inr None \<or>
     (\<exists>e. decode_body lib img w h (fst (pixel_coords lib g w h password)) = Inl e)"
    by (intro decode_body_truncated [where hb = hb and n = n]) simp_all
  then show "fst (decode_image lib g img w h password) = None"
    by (auto simp add: fst_decode_image)
next
  assume "fst (decode_image lib g img (width img) (height img) password) = None \<and>
    fst (decode_image lib g img (width img) (height img) None) = None"
  then show "fst (decode lib g img password) = None"
    by (simp add: fst_decode)
qed

lemma sample_marker_only:
  "decode_body sample_lib (raw_stego 5 4 marker) 5 4 (raster_coords 5 4) = Inl StructError"
  by code_simp

lemma sample_blank_header:
  "recovered_header (blank 8 4) (raster_coords 8 4) = Inr [0, 0, 0, 0, 0, 0, 0, 0, 0, 0, 0]"
  by code_simp

lemma sample_long_header:
  "recovered_header (raw_stego 8 4 (marker @ [232, 3, 0, 0])) (raster_coords 8 4)
     = Inr (marker @ [232, 3, 0, 0])"
  by code_simp

lemma sample_short_header:
  "recovered_header (raw_stego 8 4 (marker @ [5, 0, 0, 0])) (raster_coords 8 4)
     = Inr (marker @ [5, 0, 0, 0])"
  by code_simp

lemma unpack_samples:
  "struct_unpack_le32 (take 4 (drop 7 (marker @ [232, 3, 0, 0]))) = Inr 1000"
  "struct_unpack_le32 (take 4 (drop 7 (marker @ [5, 0, 0, 0]))) = Inr 5"
  by (simp_all add: length_marker struct_unpack_le32_def)

theorem decode_negative_results_witness:
  "decode_body sample_lib (raw_stego 5 4 marker) 5 4 (fst (pixel_coords sample_lib 0 5 4 None))
     = Inl StructError \<and>
   fst (decode_image sample_lib 0 (raw_stego 5 4 marker) 5 4 None) = None \<and>
   recovered_header (blank 8 4) (fst (pixel_coords sample_lib 0 8 4 None))
     = Inr [0, 0, 0, 0, 0, 0, 0, 0, 0, 0, 0] \<and>
   take 7 [0, 0, 0, 0, 0, 0, 0, 0, 0, 0, 0] \<noteq> marker \<and>
   fst (decode_image sample_lib 0 (blank 8 4) 8 4 None) = None \<and>
   recovered_header (raw_stego 8 4 (marker @ [232, 3, 0, 0])) (fst (pixel_coords sample_lib 0 8 4 None))
     = Inr (marker @ [232, 3, 0, 0]) \<and>
   struct_unpack_le32 (take 4 (drop 7 (marker @ [232, 3, 0, 0]))) = Inr 1000 \<and>
   (1000 :: nat) > 8 * 4 \<and>
   fst (decode_image sample_lib 0 (raw_stego 8 4 (marker @ [232, 3, 0, 0])) 8 4 None) = None \<and>
   recovered_header (raw_stego 8 4 (marker @ [5, 0, 0, 0])) (fst (pixel_coords sample_lib 0 8 4 None))
     = Inr (marker @ [5, 0, 0, 0]) \<and>
   struct_unpack_le32 (take 4 (drop 7 (marker @ [5, 0, 0, 0]))) = Inr 5 \<and>
   3 * length (fst (pixel_coords sample_lib 0 8 4 None)) < 8 * (11 + 5) \<and>
   fst (decode_image sample_lib 0 (raw_stego 8 4 (marker @ [5, 0, 0, 0])) 8 4 None) = None \<and>
   fst (decode sample_lib 0 (blank 8 4) None) = None"
proof -
  have pc: "fst (pixel_coords sample_lib 0 w h None) = raster_coords w h" for w h
    by (simp add: pixel_coords_def)
  have a1: "decode_body sample_lib (raw_stego 5 4 marker) 5 4
              (fst (pixel_coords sample_lib 0 5 4 None)) = Inl StructError"
    by (simp only: pc sample_marker_only)
  have a2: "fst (decode_image sample_lib 0 (raw_stego 5 4 marker) 5 4 None) = None"
    using decode_negative_results [where lib = sample_lib and g = 0 and w = 5 and h = 4
        and password = None and img = "raw_stego 5 4 marker" and e = StructError] a1
    by blast
  have b1: "recovered_header (blank 8 4) (fst (pixel_coords sample_lib 0 8 4 None))
     = Inr [0, 0, 0, 0, 0, 0, 0, 0, 0, 0, 0]"
    by (simp only: pc sample_blank_header)
  have b2: "take 7 [0, 0, 0, 0, 0, 0, 0, 0, 0, 0, 0] \<noteq> marker"
    by (simp add: marker_bytes)
  have b3: "fst (decode_image sample_lib 0 (blank 8 4) 8 4 None) = None"
    using decode_negative_results [where lib = sample_lib and g = 0 and w = 8 and h = 4
        and password = None and img = "blank 8 4" and hb = "[0, 0, 0, 0, 0, 0, 0, 0, 0, 0, 0]"]
      b1 b2
    by blast
  have c1: "recovered_header (raw_stego 8 4 (marker @ [232, 3, 0, 0]))
      (fst (pixel_coords sample_lib 0 8 4 None)) = Inr (marker @ [232, 3, 0, 0])"
    by (simp only: pc sample_long_header)
  have c2: "(1000 :: nat) > 8 * 4" by simp
  have c3: "fst (decode_image sample_lib 0 (raw_stego 8 4 (marker @ [232, 3, 0, 0])) 8 4 None) = None"
    using decode_negative_results [where lib = sample_lib and g = 0 and w = 8 and h = 4
        and password = None and img = "raw_stego 8 4 (marker @ [232, 3, 0, 0])"
        and hb = "marker @ [232, 3, 0, 0]" and n = 1000]
      c1 c2 unpack_samples(1)
    by blast
  have d1: "recovered_header (raw_stego 8 4 (marker @ [5, 0, 0, 0]))
      (fst (pixel_coords sample_lib 0 8 4 None)) = Inr (marker @ [5, 0, 0, 0])"
    by (simp only: pc sample_short_header)
  have d2: "3 * length (fst (pixel_coords sample_lib 0 8 4 None)) < 8 * (11 + 5)"
    by (simp add: pc raster_coords_props(1))
  have d3: "fst (decode_image sample_lib 0 (raw_stego 8 4 (marker @ [5, 0, 0, 0])) 8 4 None) = None"
    using decode_negative_results [where lib = sample_lib and g = 0 and w = 8 and h = 4
        and password = None and img = "raw_stego 8 4 (marker @ [5, 0, 0, 0])"
        and hb = "marker @ [5, 0, 0, 0]" and n = 5]
      d1 d2 unpack_samples(2)
    by blast
  have e1: "fst (decode sample_lib 0 (blank 8 4) None) = None"
    using decode_negative_results [where lib = sample_lib and g = 0
        and password = None and img = "blank 8 4"] b3
    by (simp add: shape_blank)
  from a1 a2 b1 b2 b3 c1 c2 c3 d1 d2 d3 e1 unpack_samples show ?thesis
    by (simp only: simp_thms)
qed

section \<open>Fallback to the raster order\<close>











end
